theory Spec2Isabelle
  imports Main "HOL-Library.List_Lexorder" "HOL-Library.Char_ord" "HOL-Library.AList"
    "HOL-Library.Sublist"
begin

section \<open>dependency-db: a range-overlap index over an ordered key-value store\<close>

text \<open>
  A shallow embedding of \<^verbatim>\<open>src/index.js\<close>. JavaScript strings are \<^typ>\<open>string\<close>, compared
  lexicographically by code unit (\<open>HOL-Library.List_Lexorder\<close> over \<open>HOL-Library.Char_ord\<close>:
  a proper prefix is smaller, as in JavaScript). Version components are natural numbers
  (\<^verbatim>\<open>semver\<close> accepts integers up to \<open>2^53 - 1\<close>, on which JavaScript's \<^verbatim>\<open>patch + 1\<close> is exact).

  The packages the file requires are not part of it. They enter the model as the record
  \<open>env\<close> of functions the code calls: the global \<^verbatim>\<open>escape\<close>, \<^verbatim>\<open>lexi.pack(n, 'hex')\<close>,
  \<^verbatim>\<open>semver-compare\<close> and \<^verbatim>\<open>semver.Range\<close>. What a theorem needs of them is a hypothesis of
  that theorem. For \<^verbatim>\<open>lexi.pack\<close> the algorithm of the package is modelled as well
  (\<open>lexi_pack_hex\<close>): it preserves the order of the numbers up to \<open>2^44 + 251\<close> and not
  beyond, so the hypothesis on the encoder carries a bound.
\<close>

subsection \<open>Data\<close>

text \<open>The \<^verbatim>\<open>semver\<close> object of a comparator: only these three fields are read.\<close>

record semver =
  major :: nat
  minor :: nat
  patch :: nat

text \<open>
  \<^verbatim>\<open>comparator.operator\<close>: \<^verbatim>\<open>undefined\<close> (match all), \<^verbatim>\<open>''\<close> (equality), the four
  inequalities, and any other string, for which every \<^verbatim>\<open>switch\<close> of the file throws.
\<close>

datatype operator = Unset | Eq | Lt | Le | Gt | Ge | Other string

record comparator =
  operator :: operator
  semver :: semver

text \<open>
  The object \<^verbatim>\<open>semver.Range(s)\<close> returns: \<^verbatim>\<open>.set\<close> is a disjunction of conjunctions of
  comparators, \<^verbatim>\<open>.range\<close> the formatted range string.
\<close>

record range =
  range_set :: "comparator list list"
  range_str :: string

text \<open>Everything the file throws.\<close>

datatype exn =
  Invalid_range
  | OR_range_queries_not_supported
  | More_than_two_comparators_not_supported
  | Unexpected_operator operator
  | Unexpected_lower_operator operator
  | Unexpected_upper_operator operator
  | TypeError

text \<open>A manifest (\<^verbatim>\<open>pkg\<close>); the two dependency objects may be absent.\<close>

record manifest =
  name :: string
  version :: string
  dependencies :: "(string \<times> string) list option"
  devDependencies :: "(string \<times> string) list option"

text \<open>
  An encoded range: one pair \<^verbatim>\<open>[lowers, uppers]\<close> per conjunction. A value of the store
  is a manifest, a version string, an encoded range (\<^verbatim>\<open>!index!\<close>) or
  \<^verbatim>\<open>{version, sets}\<close> (\<^verbatim>\<open>!index-latest!\<close>).
\<close>

type_synonym encoded = "(string list \<times> string list) list"

datatype val =
  Manifest manifest
  | Version string
  | Sets encoded
  | Latest string encoded

record env =
  escape :: "string \<Rightarrow> string"
  lexi_pack :: "nat \<Rightarrow> string"
  cmp :: "string \<Rightarrow> string \<Rightarrow> int"
  semver_Range :: "string \<Rightarrow> range option"
  inherited :: "string \<Rightarrow> bool"

subsection \<open>Version codec (\<^verbatim>\<open>lexSemver\<close>, lines 307-311)\<close>

definition lexSemver :: "(nat \<Rightarrow> string) \<Rightarrow> semver \<Rightarrow> string" where
  "lexSemver P v = P (major v) @ ''!'' @ P (minor v) @ ''!'' @ P (patch v)"

text \<open>The two sentinels \<^verbatim>\<open>'\x00'\<close> and \<^verbatim>\<open>'\xff'\<close>.\<close>

definition x00 :: string where
  "x00 = [CHR 0x00]"

definition xff :: string where
  "xff = [CHR 0xFF]"

text \<open>\<^verbatim>\<open>{major: 0, minor: 0, patch: 0}\<close> and the object with \<^verbatim>\<open>patch + 1\<close>.\<close>

definition zero_semver :: semver where
  "zero_semver = \<lparr>major = 0, minor = 0, patch = 0\<rparr>"

definition inc_patch :: "semver \<Rightarrow> semver" where
  "inc_patch v = \<lparr>major = major v, minor = minor v, patch = patch v + 1\<rparr>"

subsection \<open>Write-side encoding (\<^verbatim>\<open>batchDependencies\<close>, lines 86-116)\<close>

text \<open>
  The \<^verbatim>\<open>switch\<close> on one comparator pushes onto \<^verbatim>\<open>set[0]\<close> and \<^verbatim>\<open>set[1]\<close>; the two
  \<^verbatim>\<open>forEach\<close> loops are the two folds, left to right, stopping at the first throw.
\<close>

definition push_comparator ::
  "(nat \<Rightarrow> string) \<Rightarrow> string list \<times> string list \<Rightarrow> comparator \<Rightarrow> exn + string list \<times> string list"
where
  "push_comparator P s c =
     (case operator c of
        Unset \<Rightarrow> Inr (fst s @ [lexSemver P zero_semver], snd s)
      | Eq \<Rightarrow> Inr (fst s @ [lexSemver P (semver c)], snd s @ [lexSemver P (inc_patch (semver c))])
      | Gt \<Rightarrow> Inr (fst s @ [lexSemver P (semver c)], snd s)
      | Ge \<Rightarrow> Inr (fst s @ [lexSemver P (semver c)], snd s)
      | Lt \<Rightarrow> Inr (fst s, snd s @ [lexSemver P (semver c)])
      | Le \<Rightarrow> Inr (fst s, snd s @ [lexSemver P (semver c)])
      | Other x \<Rightarrow> Inl (Unexpected_operator (Other x)))"

fun encode_comparators ::
  "(nat \<Rightarrow> string) \<Rightarrow> string list \<times> string list \<Rightarrow> comparator list \<Rightarrow> exn + string list \<times> string list"
where
  "encode_comparators P s [] = Inr s"
| "encode_comparators P s (c # cs) =
     (case push_comparator P s c of
        Inl e \<Rightarrow> Inl e
      | Inr s' \<Rightarrow> encode_comparators P s' cs)"

fun encode_sets :: "(nat \<Rightarrow> string) \<Rightarrow> comparator list list \<Rightarrow> exn + encoded" where
  "encode_sets P [] = Inr []"
| "encode_sets P (comparators # sets) =
     (case encode_comparators P ([], []) comparators of
        Inl e \<Rightarrow> Inl e
      | Inr s \<Rightarrow> (case encode_sets P sets of Inl e \<Rightarrow> Inl e | Inr value \<Rightarrow> Inr (s # value)))"

subsection \<open>Read-side normalization (\<^verbatim>\<open>normalize\<close>, lines 232-305)\<close>

definition normalizeLower :: "comparator \<Rightarrow> exn + semver" where
  "normalizeLower c =
     (case operator c of
        Ge \<Rightarrow> Inr (semver c)
      | Gt \<Rightarrow> Inr (inc_patch (semver c))
      | x \<Rightarrow> Inl (Unexpected_lower_operator x))"

definition normalizeUpper :: "comparator \<Rightarrow> exn + semver" where
  "normalizeUpper c =
     (case operator c of
        Lt \<Rightarrow> Inr (semver c)
      | Le \<Rightarrow> Inr (inc_patch (semver c))
      | x \<Rightarrow> Inl (Unexpected_upper_operator x))"

text \<open>
  The result is the array the function returns, of length 0, 1 or 2. With no comparator
  at all \<^verbatim>\<open>lower\<close> is \<^verbatim>\<open>undefined\<close> and reading \<^verbatim>\<open>lower.operator\<close> throws a TypeError.
\<close>

definition normalize_comparators :: "comparator list \<Rightarrow> exn + semver list" where
  "normalize_comparators comparators =
     (if length comparators > 2 then Inl More_than_two_comparators_not_supported
      else case comparators of
        [] \<Rightarrow> Inl TypeError
      | [lower] \<Rightarrow>
          (case operator lower of
             Unset \<Rightarrow> Inr []
           | Eq \<Rightarrow> Inr [semver lower, inc_patch (semver lower)]
           | Lt \<Rightarrow> Inr [zero_semver, semver lower]
           | Le \<Rightarrow> Inr [zero_semver, inc_patch (semver lower)]
           | Gt \<Rightarrow> Inr [inc_patch (semver lower)]
           | Ge \<Rightarrow> Inr [semver lower]
           | Other x \<Rightarrow> Inl (Unexpected_operator (Other x)))
      | lower # upper # _ \<Rightarrow>
          (case normalizeLower lower of
             Inl e \<Rightarrow> Inl e
           | Inr l \<Rightarrow> (case normalizeUpper upper of Inl e \<Rightarrow> Inl e | Inr u \<Rightarrow> Inr [l, u])))"

text \<open>
  Lines 158-159 of \<^verbatim>\<open>query\<close>: \<^verbatim>\<open>norm[0] ? lexSemver(norm[0]) : '\x00'\<close> and
  \<^verbatim>\<open>norm[1] ? lexSemver(norm[1]) : '\xff'\<close>.
\<close>

definition query_bounds :: "(nat \<Rightarrow> string) \<Rightarrow> semver list \<Rightarrow> string \<times> string" where
  "query_bounds P norm =
     ((case norm of [] \<Rightarrow> x00 | l # _ \<Rightarrow> lexSemver P l),
      (case norm of _ # u # _ \<Rightarrow> lexSemver P u | _ \<Rightarrow> xff))"

text \<open>Lines 156-160 together: the interval \<^verbatim>\<open>(lquery, uquery)\<close> of a query that is not a wildcard.\<close>

definition normalized_bounds :: "(nat \<Rightarrow> string) \<Rightarrow> comparator list \<Rightarrow> exn + string \<times> string" where
  "normalized_bounds P comparators =
     (case normalize_comparators comparators of
        Inl e \<Rightarrow> Inl e
      | Inr norm \<Rightarrow> Inr (query_bounds P norm))"

subsection \<open>The overlap test (\<^verbatim>\<open>match\<close>, lines 212-230)\<close>

definition match :: "encoded \<Rightarrow> string \<Rightarrow> string \<Rightarrow> bool" where
  "match rng lquery uquery =
     list_ex (\<lambda>(lower, upper).
        if lower = [] \<and> uquery \<le> x00 then False
        else if upper = [] \<and> xff \<le> lquery then False
        else if \<not> list_all (\<lambda>lower. lower < uquery) lower then False
        else list_all (\<lambda>upper. lquery < upper) upper) rng"

subsection \<open>The ordered store and the cache\<close>

text \<open>
  The store the handle wraps (\<^verbatim>\<open>this._db\<close>) is a finite table of keys and values, kept as
  an association list; \<open>map_of\<close> is what a point read sees. Any access may fail: \<open>io\<close> says
  which point reads, and whether the batch and the delete, fail with an I/O error during
  one operation. A value is read back in the shape its key family is written in; a read
  that finds another shape is reported as \<open>Corrupt\<close>.
\<close>

datatype dberr = NotFound | IOError | Corrupt

record io =
  get_fails :: "string \<Rightarrow> bool"
  batch_fails :: bool
  del_fails :: bool

type_synonym kvs = "(string \<times> val) list"

datatype op = Put string val

definition db_get :: "io \<Rightarrow> kvs \<Rightarrow> string \<Rightarrow> dberr + val" where
  "db_get i kv key =
     (if get_fails i key then Inl IOError
      else case map_of kv key of None \<Rightarrow> Inl NotFound | Some v \<Rightarrow> Inr v)"

definition apply_op :: "op \<Rightarrow> kvs \<Rightarrow> kvs" where
  "apply_op x kv = (case x of Put key v \<Rightarrow> AList.update key v kv)"

definition db_batch :: "io \<Rightarrow> kvs \<Rightarrow> op list \<Rightarrow> kvs \<times> dberr option" where
  "db_batch i kv batch =
     (if batch_fails i then (kv, Some IOError) else (fold apply_op batch kv, None))"

definition db_del :: "io \<Rightarrow> kvs \<Rightarrow> string \<Rightarrow> kvs \<times> dberr option" where
  "db_del i kv key =
     (if del_fails i then (kv, Some IOError) else (AList.delete key kv, None))"

text \<open>
  \<^verbatim>\<open>createReadStream({gt, lt, limit})\<close>: the records with \<^verbatim>\<open>gt < key < lt\<close> in ascending
  key order, read at the moment the stream is created. \<^verbatim>\<open>parseInt(opts.limit || -1, 10)\<close>
  makes an absent limit and the limit 0 both unlimited.
\<close>

definition createReadStream :: "kvs \<Rightarrow> string \<Rightarrow> string \<Rightarrow> nat option \<Rightarrow> (string \<times> val) list" where
  "createReadStream kv gt lt limit =
     (let keys = sort (remdups (filter (\<lambda>k. gt < k \<and> k < lt) (map fst kv)));
          records = List.map_filter (\<lambda>k. map_option (Pair k) (map_of kv k)) keys
      in case limit of
           None \<Rightarrow> records
         | Some n \<Rightarrow> if n = 0 then records else take n records)"

text \<open>
  The handle's state: the store, and the latest-version cache (\<^verbatim>\<open>hashlru\<close>) as the table
  its \<^verbatim>\<open>get\<close> reads. The cache drops entries on its own; that is the event \<open>Evict\<close> below.
\<close>

record state =
  db :: kvs
  lru :: "string \<rightharpoonup> string"

datatype 'a outcome = Thrown exn | Done 'a

subsection \<open>Writer (\<^verbatim>\<open>store\<close>, \<^verbatim>\<open>_getLatestVersion\<close>, \<^verbatim>\<open>batchDependencies\<close>, lines 30-130)\<close>

definition semverGt :: "env \<Rightarrow> string \<Rightarrow> string \<Rightarrow> bool" where
  "semverGt E a b = (cmp E a b = 1)"

text \<open>
  A JavaScript string is truthy when it is not empty; \<^verbatim>\<open>undefined\<close> is falsy. A cached
  version that is falsy is read again from the store (line 61).
\<close>

definition truthy :: "string option \<Rightarrow> bool" where
  "truthy s = (case s of None \<Rightarrow> False | Some x \<Rightarrow> x \<noteq> [])"

definition getLatestVersion :: "env \<Rightarrow> io \<Rightarrow> state \<Rightarrow> string \<Rightarrow> dberr + string option" where
  "getLatestVersion E i st nm =
     (let latest = lru st nm
      in if truthy latest then Inr latest
         else (case db_get i (db st) (''!latest-version!'' @ escape E nm) of
                 Inl NotFound \<Rightarrow> Inr None
               | Inl err \<Rightarrow> Inl err
               | Inr (Version v) \<Rightarrow> Inr (Some v)
               | Inr _ \<Rightarrow> Inl Corrupt))"

text \<open>
  The body of the \<^verbatim>\<open>forEach\<close> over \<^verbatim>\<open>Object.keys(deps)\<close>: a range that does not parse
  is skipped (the \<^verbatim>\<open>catch\<close>); an unexpected operator is thrown outside the \<^verbatim>\<open>try\<close>.
\<close>

definition dependency_ops ::
  "env \<Rightarrow> manifest \<Rightarrow> string \<Rightarrow> bool \<Rightarrow> string \<times> string \<Rightarrow> exn + op list"
where
  "dependency_ops E pkg deptype isLatest d =
     (case semver_Range E (snd d) of
        None \<Rightarrow> Inr []
      | Some r \<Rightarrow>
          (case encode_sets (lexi_pack E) (range_set r) of
             Inl e \<Rightarrow> Inl e
           | Inr value \<Rightarrow>
               Inr (Put (''!index!'' @ deptype @ ''!'' @ escape E (fst d) @ ''!''
                          @ escape E (name pkg) @ ''@'' @ version pkg) (Sets value)
                    # (if isLatest
                       then [Put (''!index-latest!'' @ deptype @ ''!'' @ escape E (fst d) @ ''!''
                                   @ escape E (name pkg)) (Latest (version pkg) value)]
                       else []))))"

fun batch_each ::
  "env \<Rightarrow> manifest \<Rightarrow> string \<Rightarrow> bool \<Rightarrow> (string \<times> string) list \<Rightarrow> exn + op list"
where
  "batch_each E pkg deptype isLatest [] = Inr []"
| "batch_each E pkg deptype isLatest (d # ds) =
     (case dependency_ops E pkg deptype isLatest d of
        Inl e \<Rightarrow> Inl e
      | Inr ops \<Rightarrow>
          (case batch_each E pkg deptype isLatest ds of
             Inl e \<Rightarrow> Inl e
           | Inr batch \<Rightarrow> Inr (ops @ batch)))"

definition batchDependencies ::
  "env \<Rightarrow> manifest \<Rightarrow> (string \<times> string) list option \<Rightarrow> string \<Rightarrow> bool \<Rightarrow> exn + op list"
where
  "batchDependencies E pkg deps deptype isLatest =
     batch_each E pkg deptype isLatest (case deps of None \<Rightarrow> [] | Some ds \<Rightarrow> ds)"

text \<open>Line 36: \<^verbatim>\<open>latest ? semverGt(pkg.version, latest) : true\<close>.\<close>

definition isLatest_of :: "env \<Rightarrow> manifest \<Rightarrow> string option \<Rightarrow> bool" where
  "isLatest_of E pkg latest =
     (case latest of
        Some l \<Rightarrow> if l \<noteq> [] then semverGt E (version pkg) l else True
      | None \<Rightarrow> True)"

text \<open>
  \<^verbatim>\<open>store\<close> under the lock, from the read of the latest version to the callback. The result
  is the callback's error argument, or the exception \<^verbatim>\<open>batchDependencies\<close> threw. The
  cache is set before the batch is committed, as in the source.
\<close>

definition store :: "env \<Rightarrow> io \<Rightarrow> state \<Rightarrow> manifest \<Rightarrow> state \<times> dberr option outcome" where
  "store E i st pkg =
     (case getLatestVersion E i st (name pkg) of
        Inl err \<Rightarrow> (st, Done (Some err))
      | Inr latest \<Rightarrow>
          (let isLatest = isLatest_of E pkg latest;
               dependent = escape E (name pkg)
           in case batchDependencies E pkg (dependencies pkg) ''dep'' isLatest of
                Inl e \<Rightarrow> (st, Thrown e)
              | Inr deps \<Rightarrow>
                  (case batchDependencies E pkg (devDependencies pkg) ''dev'' isLatest of
                     Inl e \<Rightarrow> (st, Thrown e)
                   | Inr devs \<Rightarrow>
                       (let batch = deps @ devs
                              @ [Put (''!pkg!'' @ dependent @ ''@'' @ version pkg) (Manifest pkg)]
                              @ (if isLatest
                                 then [Put (''!pkg-latest!'' @ dependent) (Manifest pkg),
                                       Put (''!latest-version!'' @ dependent) (Version (version pkg))]
                                 else []);
                            cache = (if isLatest then (lru st)(name pkg \<mapsto> version pkg) else lru st);
                            committed = db_batch i (db st) batch
                        in (\<lparr>db = fst committed, lru = cache\<rparr>, Done (snd committed))))))"

subsection \<open>Reader (\<^verbatim>\<open>query\<close>, lines 132-205)\<close>

record opts =
  opt_all :: bool
  opt_devDependencies :: bool
  opt_gt :: "string option"
  opt_limit :: "nat option"

text \<open>What the transform does with one scan record: skip it, emit a manifest, or fail.\<close>

datatype emission = Skip | Emit manifest | Fail dberr

text \<open>\<^verbatim>\<open>data.key.substr(data.key.lastIndexOf('!') + 1)\<close>.\<close>

definition dependent_of :: "string \<Rightarrow> string" where
  "dependent_of key = rev (takeWhile (\<lambda>c. c \<noteq> CHR ''!'') (rev key))"

text \<open>
  \<^verbatim>\<open>deps && name in deps\<close>: the \<^verbatim>\<open>in\<close> operator also finds the properties an object
  inherits (\<open>inherited\<close>).
\<close>

definition declares :: "env \<Rightarrow> string \<Rightarrow> (string \<times> string) list option \<Rightarrow> bool" where
  "declares E nm deps =
     (case deps of None \<Rightarrow> False | Some ds \<Rightarrow> nm \<in> set (map fst ds) \<or> inherited E nm)"

text \<open>
  Lines 186-198, the lazy cleanup under the lock: re-read the latest version of the
  dependent; delete the scan key only when it still is the version of the manifest that
  was fetched.
\<close>

definition cleanup :: "io \<Rightarrow> kvs \<Rightarrow> string \<Rightarrow> string \<Rightarrow> manifest \<Rightarrow> kvs \<times> dberr option" where
  "cleanup i kv key dependent pkg =
     (case db_get i kv (''!latest-version!'' @ dependent) of
        Inl err \<Rightarrow> (kv, Some err)
      | Inr (Version v) \<Rightarrow> if v \<noteq> version pkg then (kv, None) else db_del i kv key
      | Inr _ \<Rightarrow> (kv, Some Corrupt))"

text \<open>
  \<^verbatim>\<open>var sets = opts.all ? data.value : data.value.sets\<close>, and the test
  \<^verbatim>\<open>!wildcard && !match(sets, lquery, uquery)\<close>: false when the record is skipped.
\<close>

definition sets_of :: "opts \<Rightarrow> val \<Rightarrow> dberr + encoded" where
  "sets_of opt v =
     (if opt_all opt then (case v of Sets s \<Rightarrow> Inr s | _ \<Rightarrow> Inl Corrupt)
      else (case v of Latest _ s \<Rightarrow> Inr s | _ \<Rightarrow> Inl Corrupt))"

definition passes :: "opts \<Rightarrow> bool \<Rightarrow> string \<times> string \<Rightarrow> val \<Rightarrow> dberr + bool" where
  "passes opt wildcard bounds v =
     (if wildcard then Inr True
      else case sets_of opt v of
             Inl err \<Rightarrow> Inl err
           | Inr sets \<Rightarrow> Inr (match sets (fst bounds) (snd bounds)))"

text \<open>The transform \<^verbatim>\<open>filter\<close> (lines 163-200) on one record \<^verbatim>\<open>data\<close>.\<close>

definition filter_record ::
  "env \<Rightarrow> io \<Rightarrow> opts \<Rightarrow> string \<Rightarrow> bool \<Rightarrow> string \<times> string \<Rightarrow> kvs \<Rightarrow> string \<times> val \<Rightarrow> kvs \<times> emission"
where
  "filter_record E i opt nm wildcard bounds kv data =
     (case passes opt wildcard bounds (snd data) of
        Inl err \<Rightarrow> (kv, Fail err)
      | Inr False \<Rightarrow> (kv, Skip)
      | Inr True \<Rightarrow>
          (let dependent = dependent_of (fst data);
               key = (if opt_all opt then ''!pkg!'' else ''!pkg-latest!'') @ dependent
           in case db_get i kv key of
                Inl err \<Rightarrow> (kv, Fail err)
              | Inr (Manifest pkg) \<Rightarrow>
                  if opt_all opt then (kv, Emit pkg)
                  else if declares E nm
                            (if opt_devDependencies opt then devDependencies pkg else dependencies pkg)
                  then (kv, Emit pkg)
                  else (case cleanup i kv (fst data) dependent pkg of
                          (kv', None) \<Rightarrow> (kv', Skip)
                        | (kv', Some err) \<Rightarrow> (kv', Fail err))
              | Inr _ \<Rightarrow> (kv, Fail Corrupt)))"

text \<open>
  The stream: the records pass through the transform in scan order; the first failure
  ends it. \<open>collect\<close> hands the callback the error, or the manifests emitted.
\<close>

record collected =
  emitted :: "manifest list"
  failure :: "dberr option"

fun pump ::
  "env \<Rightarrow> io \<Rightarrow> opts \<Rightarrow> string \<Rightarrow> bool \<Rightarrow> string \<times> string \<Rightarrow> kvs \<Rightarrow> (string \<times> val) list \<Rightarrow> kvs \<times> collected"
where
  "pump E i opt nm wildcard bounds kv [] = (kv, \<lparr>emitted = [], failure = None\<rparr>)"
| "pump E i opt nm wildcard bounds kv (data # rest) =
     (case filter_record E i opt nm wildcard bounds kv data of
        (kv', Fail err) \<Rightarrow> (kv', \<lparr>emitted = [], failure = Some err\<rparr>)
      | (kv', Skip) \<Rightarrow> pump E i opt nm wildcard bounds kv' rest
      | (kv', Emit pkg) \<Rightarrow>
          (case pump E i opt nm wildcard bounds kv' rest of
             (kv'', c) \<Rightarrow> (kv'', c\<lparr>emitted := pkg # emitted c\<rparr>)))"

definition keyprefix_of :: "opts \<Rightarrow> string" where
  "keyprefix_of opt =
     (if opt_all opt then ''!index!'' else ''!index-latest!'')
       @ (if opt_devDependencies opt then ''dev!'' else ''dep!'')"

text \<open>
  \<^verbatim>\<open>query\<close>: \<open>Thrown\<close> is an exception raised by the call itself, before it returns the
  stream; \<open>Done\<close> is the stream's end, as the callback sees it.
\<close>

definition query ::
  "env \<Rightarrow> io \<Rightarrow> state \<Rightarrow> string \<Rightarrow> string \<Rightarrow> opts \<Rightarrow> state \<times> collected outcome"
where
  "query E i st nm rangeString opt =
     (case semver_Range E rangeString of
        None \<Rightarrow> (st, Thrown Invalid_range)
      | Some r \<Rightarrow>
          (let name' = escape E nm;
               keyprefix = keyprefix_of opt;
               wildcard = (range_str r = []);
               stream = createReadStream (db st)
                          (keyprefix @ name' @ ''!'' @ (case opt_gt opt of None \<Rightarrow> [] | Some g \<Rightarrow> g))
                          (keyprefix @ name' @ ''!'' @ xff) (opt_limit opt)
           in if length (range_set r) \<noteq> 1 then (st, Thrown OR_range_queries_not_supported)
              else case (if wildcard then Inr (x00, xff)
                         else normalized_bounds (lexi_pack E) (hd (range_set r))) of
                     Inl e \<Rightarrow> (st, Thrown e)
                   | Inr bounds \<Rightarrow>
                       (case pump E i opt name' wildcard bounds (db st) stream of
                          (kv', c) \<Rightarrow> (st\<lparr>db := kv'\<rparr>, Done c))))"

subsection \<open>Histories\<close>

text \<open>
  The operations run one at a time (the lock serialises the writers; a query's cleanup
  takes the lock too). Between two operations the cache may drop any of its entries.
\<close>

datatype event =
  Store io manifest
  | Query io string string opts
  | Evict "string list"

definition step :: "env \<Rightarrow> state \<Rightarrow> event \<Rightarrow> state" where
  "step E st ev =
     (case ev of
        Store i pkg \<Rightarrow> fst (store E i st pkg)
      | Query i nm rangeString opt \<Rightarrow> fst (query E i st nm rangeString opt)
      | Evict names \<Rightarrow> st\<lparr>lru := (\<lambda>n. if n \<in> set names then None else lru st n)\<rparr>)"

fun run :: "env \<Rightarrow> state \<Rightarrow> event list \<Rightarrow> state" where
  "run E st [] = st"
| "run E st (ev # evs) = run E (step E st ev) evs"

section \<open>The encoder of the package \<^verbatim>\<open>lexicographic-integer\<close>\<close>

text \<open>
  \<^verbatim>\<open>lexi.pack(n, 'hex')\<close> is the function \<^verbatim>\<open>pack\<close> of the package \<^verbatim>\<open>lexicographic-integer\<close>,
  which is not part of \<^verbatim>\<open>src/\<close>. This section models it from the algorithm of the
  package, on natural numbers. A number below 251 is one byte. For \<open>x = n - 251\<close> below
  \<open>256^k\<close>, \<open>k\<close> from 1 to 4, the encoding is the tag byte \<open>250 + k\<close> and the \<open>k\<close> bytes of
  \<open>x\<close>, most significant first. A larger number is written like a floating-point number:
  the tag 255, the packed exponent \<open>floor(log2 x) - 32\<close>, and the six bytes of
  \<open>floor(x / 2^(exp - 11))\<close>, a mantissa of 44 bits. With \<^verbatim>\<open>'hex'\<close> every byte becomes two
  lowercase hexadecimal digits.
\<close>

text \<open>
  \<^verbatim>\<open>Math.floor(Math.log(x) / Math.log(2))\<close>, for \<open>x\<close> at least 1. JavaScript computes it in
  floating point; the model takes the exact value.
\<close>

fun log2 :: "nat \<Rightarrow> nat" where
  "log2 x = (if x < 2 then 0 else Suc (log2 (x div 2)))"

declare log2.simps [simp del]

text \<open>
  \<^verbatim>\<open>bytesOf\<close>: the loop pushes \<^verbatim>\<open>Math.floor(x / d) % 256\<close> to the front for
  \<open>d = 256^0, ..., 256^5\<close>.
\<close>

definition bytesOf :: "nat \<Rightarrow> nat list" where
  "bytesOf x = map (\<lambda>i. (x div 256 ^ i) mod 256) [5, 4, 3, 2, 1, 0]"

text \<open>
  \<^verbatim>\<open>pack(n)\<close> with the encoding \<^verbatim>\<open>'array'\<close>. \<open>x\<close> is read only where \<open>n\<close> is at least 251.
  The source divides by \<^verbatim>\<open>Math.pow(2, exp - 11)\<close>, which multiplies where the exponent is
  below 11, and \<^verbatim>\<open>bytesOf\<close> takes the floor.
\<close>

function lexi_pack_array :: "nat \<Rightarrow> nat list" where
  "lexi_pack_array n =
     (let x = n - 251 in
      if n < 251 then [n]
      else if x < 256 then [251, x]
      else if x < 256 * 256 then [252, x div 256, x mod 256]
      else if x < 256 * 256 * 256 then
        [253, x div 256 div 256, (x div 256) mod 256, x mod 256]
      else if x < 256 * 256 * 256 * 256 then
        [254, x div 256 div 256 div 256, (x div 256 div 256) mod 256, (x div 256) mod 256,
         x mod 256]
      else
        (let exp = log2 x - 32 in
         [255] @ lexi_pack_array exp @
         bytesOf (if 11 \<le> exp then x div 2 ^ (exp - 11) else x * 2 ^ (11 - exp))))"
  by pat_completeness auto

termination
proof (relation "measure id")
  show "wf (measure id)" by simp
next
  fix n x xa
  assume "x = n - 251" "\<not> n < 251" "xa = log2 x - 32"
  have le: "log2 y \<le> y" for y
    by (induction y rule: log2.induct) (subst log2.simps, auto)
  from le[of x] \<open>x = n - 251\<close> \<open>\<not> n < 251\<close> \<open>xa = log2 x - 32\<close>
  show "(xa, n) \<in> measure id" by simp
qed

declare lexi_pack_array.simps [simp del]

text \<open>
  \<^verbatim>\<open>encodeHex\<close>: \<^verbatim>\<open>b.toString(16)\<close>, with a \<^verbatim>\<open>0\<close> in front where \<^verbatim>\<open>b < 16\<close>.
\<close>

definition hex_lower :: "nat \<Rightarrow> char" where
  "hex_lower d = ''0123456789abcdef'' ! d"

fun toString16 :: "nat \<Rightarrow> string" where
  "toString16 b =
     (if b < 16 then [hex_lower b] else toString16 (b div 16) @ [hex_lower (b mod 16)])"

declare toString16.simps [simp del]

definition encodeHex :: "nat list \<Rightarrow> string" where
  "encodeHex bytes =
     concat (map (\<lambda>b. if b < 16 then CHR ''0'' # toString16 b else toString16 b) bytes)"

definition lexi_pack_hex :: "nat \<Rightarrow> string" where
  "lexi_pack_hex n = encodeHex (lexi_pack_array n)"

section \<open>Vocabulary of the properties\<close>

text \<open>The numeric tuple order on (major, minor, patch), and what a comparator admits.\<close>

definition semver_less :: "semver \<Rightarrow> semver \<Rightarrow> bool" where
  "semver_less v w =
     (major v < major w \<or>
      (major v = major w \<and> (minor v < minor w \<or> (minor v = minor w \<and> patch v < patch w))))"

definition semver_eq :: "semver \<Rightarrow> semver \<Rightarrow> bool" where
  "semver_eq v w = (major v = major w \<and> minor v = minor w \<and> patch v = patch w)"

definition satisfies :: "semver \<Rightarrow> comparator \<Rightarrow> bool" where
  "satisfies t c =
     (case operator c of
        Unset \<Rightarrow> True
      | Eq \<Rightarrow> semver_eq t (semver c)
      | Lt \<Rightarrow> semver_less t (semver c)
      | Le \<Rightarrow> semver_less t (semver c) \<or> semver_eq t (semver c)
      | Gt \<Rightarrow> semver_less (semver c) t
      | Ge \<Rightarrow> semver_less (semver c) t \<or> semver_eq t (semver c)
      | Other x \<Rightarrow> False)"

text \<open>
  What the index needs of \<^verbatim>\<open>lexi.pack(n, 'hex')\<close>: it preserves the order of the numbers
  below a bound \<open>N\<close>, and its output stays between the separator \<^verbatim>\<open>!\<close> and \<^verbatim>\<open>\xff\<close>
  (hexadecimal digits do). The package meets it for \<open>N = 2^44 + 252\<close>, that is on the
  numbers up to \<open>2^44 + 251\<close>, and for no larger bound: from there on it keeps 44 bits of
  a number.
\<close>

definition order_preserving_below :: "nat \<Rightarrow> (nat \<Rightarrow> string) \<Rightarrow> bool" where
  "order_preserving_below N P =
     ((\<forall>a b. a < b \<and> b < N \<longrightarrow> P a < P b) \<and>
      (\<forall>a. list_all (\<lambda>c. CHR ''!'' < c \<and> c < CHR 0xFF) (P a)))"

text \<open>A version, and a comparator with its patch incremented, with all components below \<open>N\<close>.\<close>

definition components_below :: "nat \<Rightarrow> semver \<Rightarrow> bool" where
  "components_below N v = (major v < N \<and> minor v < N \<and> patch v < N)"

definition comparator_below :: "nat \<Rightarrow> comparator \<Rightarrow> bool" where
  "comparator_below N c = components_below N (inc_patch (semver c))"

text \<open>The \<open>k\<close> low base-256 digits of a number, most significant first.\<close>

fun be :: "nat \<Rightarrow> nat \<Rightarrow> nat list" where
  "be 0 x = []"
| "be (Suc k) x = be k (x div 256) @ [x mod 256]"

text \<open>What the writer needs of \<^verbatim>\<open>semver-compare\<close>: "greater" is transitive.\<close>

definition gt_transitive :: "env \<Rightarrow> bool" where
  "gt_transitive E = (\<forall>a b c. semverGt E a b \<longrightarrow> semverGt E b c \<longrightarrow> semverGt E a c)"

text \<open>
  What the writer needs of \<^verbatim>\<open>semver.Range\<close>: a comparator it returns carries one of the
  six operators of the library.
\<close>

definition supported :: "comparator \<Rightarrow> bool" where
  "supported c = (case operator c of Other x \<Rightarrow> False | _ \<Rightarrow> True)"

definition parses_supported :: "env \<Rightarrow> bool" where
  "parses_supported E =
     (\<forall>s r. semver_Range E s = Some r \<longrightarrow> list_all (list_all supported) (range_set r))"

text \<open>The key families of the schema (lines 14-22).\<close>

definition latest_family :: "string \<Rightarrow> bool" where
  "latest_family k =
     (prefix ''!pkg-latest!'' k \<or> prefix ''!latest-version!'' k \<or> prefix ''!index-latest!'' k)"

definition pkg_key :: "env \<Rightarrow> manifest \<Rightarrow> string" where
  "pkg_key E pkg = ''!pkg!'' @ escape E (name pkg) @ ''@'' @ version pkg"

definition pkg_latest_key :: "env \<Rightarrow> string \<Rightarrow> string" where
  "pkg_latest_key E nm = ''!pkg-latest!'' @ escape E nm"

definition latest_version_key :: "env \<Rightarrow> string \<Rightarrow> string" where
  "latest_version_key E nm = ''!latest-version!'' @ escape E nm"

definition index_key :: "env \<Rightarrow> string \<Rightarrow> string \<Rightarrow> manifest \<Rightarrow> string" where
  "index_key E deptype dependency pkg =
     ''!index!'' @ deptype @ ''!'' @ escape E dependency @ ''!'' @ escape E (name pkg)
       @ ''@'' @ version pkg"

definition index_latest_key :: "env \<Rightarrow> string \<Rightarrow> string \<Rightarrow> string \<Rightarrow> string" where
  "index_latest_key E deptype dependency nm =
     ''!index-latest!'' @ deptype @ ''!'' @ escape E dependency @ ''!'' @ escape E nm"

text \<open>
  The comparator lists the reader rejects: none or more than two comparators, a single
  comparator whose operator is none of the six, or two comparators that are not a lower
  bound (\<^verbatim>\<open>>\<close>, \<^verbatim>\<open>>=\<close>) followed by an upper bound (\<^verbatim>\<open><\<close>, \<^verbatim>\<open><=\<close>).
\<close>

definition unsupported_shape :: "comparator list \<Rightarrow> bool" where
  "unsupported_shape cs =
     (case cs of
        [] \<Rightarrow> True
      | [c] \<Rightarrow> \<not> supported c
      | [l, u] \<Rightarrow> (operator l \<noteq> Gt \<and> operator l \<noteq> Ge) \<or> (operator u \<noteq> Lt \<and> operator u \<noteq> Le)
      | _ \<Rightarrow> True)"

text \<open>The key a batch operation writes.\<close>

definition op_key :: "op \<Rightarrow> string" where
  "op_key x = (case x of Put key v \<Rightarrow> key)"

text \<open>
  The cache runs ahead of the store: a cached version is the stored latest-version
  pointer of its package, or greater than it (the cache is set before the batch is
  committed, and the batch may fail).
\<close>

definition cache_ahead :: "env \<Rightarrow> state \<Rightarrow> bool" where
  "cache_ahead E st =
     (\<forall>n c old. lru st n = Some c \<longrightarrow> c \<noteq> [] \<longrightarrow>
        map_of (db st) (latest_version_key E n) = Some (Version old) \<longrightarrow> old \<noteq> [] \<longrightarrow>
        c = old \<or> semverGt E c old)"

text \<open>
  From one state to the next, a latest-version pointer that holds a version keeps it or
  is replaced by a strictly greater one; and so along a whole history.
\<close>

definition pointer_grows :: "env \<Rightarrow> state \<Rightarrow> state \<Rightarrow> bool" where
  "pointer_grows E s s' =
     (\<forall>k old. prefix ''!latest-version!'' k \<longrightarrow> map_of (db s) k = Some (Version old) \<longrightarrow> old \<noteq> [] \<longrightarrow>
        map_of (db s') k = Some (Version old) \<or>
        (\<exists>new. map_of (db s') k = Some (Version new) \<and> semverGt E new old))"

fun pointers_grow :: "env \<Rightarrow> state \<Rightarrow> event list \<Rightarrow> bool" where
  "pointers_grow E st [] = True"
| "pointers_grow E st (ev # evs) =
     (pointer_grows E st (step E st ev) \<and> pointers_grow E (step E st ev) evs)"

text \<open>The dependencies a manifest declares in one kind (\<^verbatim>\<open>deps || {}\<close>).\<close>

definition declared :: "string \<Rightarrow> manifest \<Rightarrow> (string \<times> string) list" where
  "declared deptype pkg =
     (case (if deptype = ''dev'' then devDependencies pkg else dependencies pkg) of
        None \<Rightarrow> []
      | Some ds \<Rightarrow> ds)"

text \<open>
  The index entries a manifest calls for: for each declared dependency whose range
  parses and encodes, the per-version entry, and the latest entry when the manifest is
  the latest.
\<close>

definition dep_puts :: "env \<Rightarrow> manifest \<Rightarrow> bool \<Rightarrow> string \<Rightarrow> string \<times> string \<Rightarrow> op set" where
  "dep_puts E pkg isLatest deptype d =
     {x. \<exists>rg enc. semver_Range E (snd d) = Some rg \<and>
           encode_sets (lexi_pack E) (range_set rg) = Inr enc \<and>
           (x = Put (index_key E deptype (fst d) pkg) (Sets enc) \<or>
            isLatest \<and> x = Put (index_latest_key E deptype (fst d) (name pkg))
                               (Latest (version pkg) enc))}"

definition index_puts :: "env \<Rightarrow> manifest \<Rightarrow> bool \<Rightarrow> string \<Rightarrow> op set" where
  "index_puts E pkg isLatest deptype =
     (\<Union>d\<in>set (declared deptype pkg). dep_puts E pkg isLatest deptype d)"

text \<open>
  Every value sits under a key of its own family. The store keeps it so, and then no read
  of the model finds a value of a shape it does not expect.
\<close>

definition fits_family :: "string \<Rightarrow> val \<Rightarrow> bool" where
  "fits_family k v =
     (case v of
        Manifest m \<Rightarrow> prefix ''!pkg!'' k \<or> prefix ''!pkg-latest!'' k
      | Version s \<Rightarrow> prefix ''!latest-version!'' k
      | Sets s \<Rightarrow> prefix ''!index!'' k
      | Latest s e \<Rightarrow> prefix ''!index-latest!'' k)"

definition well_typed :: "kvs \<Rightarrow> bool" where
  "well_typed kv = (\<forall>k v. map_of kv k = Some v \<longrightarrow> fits_family k v)"

section \<open>A concrete environment\<close>

text \<open>
  The theorems below hold for every environment that meets their hypotheses. To run the
  model on concrete inputs, this section fixes one: the \<^verbatim>\<open>escape\<close> of ECMAScript (over
  one-byte code units), a unary encoder of numbers over the hexadecimal alphabet, which
  preserves the order of all numbers, a numeric comparison of dotted version strings, the
  ranges \<^verbatim>\<open>semver.Range\<close> returns for the range strings of the examples (it throws on
  every other string, as on \<^verbatim>\<open>not-a-range\<close>), and the property names of
  \<^verbatim>\<open>Object.prototype\<close>.
\<close>

definition unreserved :: "char \<Rightarrow> bool" where
  "unreserved c =
     (c \<in> set ''ABCDEFGHIJKLMNOPQRSTUVWXYZabcdefghijklmnopqrstuvwxyz0123456789@*_+-./'')"

definition hex_digit :: "nat \<Rightarrow> char" where
  "hex_digit n = ''0123456789ABCDEF'' ! n"

definition escape_char :: "char \<Rightarrow> string" where
  "escape_char c =
     (if unreserved c then [c]
      else [CHR ''%'', hex_digit (of_char c div 16), hex_digit (of_char c mod 16)])"

definition js_escape :: "string \<Rightarrow> string" where
  "js_escape s = concat (map escape_char s)"

definition unary_hex :: "nat \<Rightarrow> string" where
  "unary_hex n = replicate n CHR ''f'' @ ''0''"

fun split_dots :: "string \<Rightarrow> string list" where
  "split_dots [] = [[]]"
| "split_dots (c # cs) =
     (if c = CHR ''.'' then [] # split_dots cs
      else (case split_dots cs of [] \<Rightarrow> [[c]] | p # ps \<Rightarrow> (c # p) # ps))"

definition decimal :: "string \<Rightarrow> nat" where
  "decimal s = foldl (\<lambda>n c. 10 * n + (of_char c - 48)) 0 s"

definition numeric_cmp :: "string \<Rightarrow> string \<Rightarrow> int" where
  "numeric_cmp a b =
     (let x = map decimal (split_dots a); y = map decimal (split_dots b)
      in if y < x then 1 else if x < y then - 1 else 0)"

definition sv :: "nat \<Rightarrow> nat \<Rightarrow> nat \<Rightarrow> semver" where
  "sv a b c = \<lparr>major = a, minor = b, patch = c\<rparr>"

definition cmpr :: "operator \<Rightarrow> semver \<Rightarrow> comparator" where
  "cmpr x v = \<lparr>operator = x, semver = v\<rparr>"

definition sample_Range :: "string \<Rightarrow> range option" where
  "sample_Range s =
     (if s = ''^1.2.0'' then
        Some \<lparr>range_set = [[cmpr Ge (sv 1 2 0), cmpr Lt (sv 2 0 0)]], range_str = ''>=1.2.0 <2.0.0''\<rparr>
      else if s = ''~2.3.0'' then
        Some \<lparr>range_set = [[cmpr Ge (sv 2 3 0), cmpr Lt (sv 2 4 0)]], range_str = ''>=2.3.0 <2.4.0''\<rparr>
      else if s = ''1.5.0'' then
        Some \<lparr>range_set = [[cmpr Eq (sv 1 5 0)]], range_str = ''1.5.0''\<rparr>
      else if s = ''1.2.3'' then
        Some \<lparr>range_set = [[cmpr Eq (sv 1 2 3)]], range_str = ''1.2.3''\<rparr>
      else if s = ''2.3.5'' then
        Some \<lparr>range_set = [[cmpr Eq (sv 2 3 5)]], range_str = ''2.3.5''\<rparr>
      else if s = ''2.4.0'' then
        Some \<lparr>range_set = [[cmpr Eq (sv 2 4 0)]], range_str = ''2.4.0''\<rparr>
      else if s = ''<=1.2.3'' then
        Some \<lparr>range_set = [[cmpr Le (sv 1 2 3)]], range_str = ''<=1.2.3''\<rparr>
      else if s = ''*'' then
        Some \<lparr>range_set = [[cmpr Unset (sv 0 0 0)]], range_str = []\<rparr>
      else if s = ''1.0.0 || 2.0.0'' then
        Some \<lparr>range_set = [[cmpr Eq (sv 1 0 0)], [cmpr Eq (sv 2 0 0)]], range_str = ''1.0.0||2.0.0''\<rparr>
      else if s = ''>1.0.0 <2.0.0 <3.0.0'' then
        Some \<lparr>range_set = [[cmpr Gt (sv 1 0 0), cmpr Lt (sv 2 0 0), cmpr Lt (sv 3 0 0)]],
              range_str = ''>1.0.0 <2.0.0 <3.0.0''\<rparr>
      else None)"

definition object_prototype :: "string \<Rightarrow> bool" where
  "object_prototype nm =
     (nm \<in> set [''constructor'', ''hasOwnProperty'', ''isPrototypeOf'', ''propertyIsEnumerable'',
                 ''toLocaleString'', ''toString'', ''valueOf'', ''__proto__'',
                 ''__defineGetter__'', ''__defineSetter__'', ''__lookupGetter__'',
                 ''__lookupSetter__''])"

definition node :: env where
  "node = \<lparr>escape = js_escape, lexi_pack = unary_hex, cmp = numeric_cmp,
           semver_Range = sample_Range, inherited = object_prototype\<rparr>"

definition reliable :: io where
  "reliable = \<lparr>get_fails = (\<lambda>k. False), batch_fails = False, del_fails = False\<rparr>"

definition empty_state :: state where
  "empty_state = \<lparr>db = [], lru = Map.empty\<rparr>"

definition latest_only :: opts where
  "latest_only = \<lparr>opt_all = False, opt_devDependencies = False, opt_gt = None, opt_limit = None\<rparr>"

definition all_versions :: opts where
  "all_versions = \<lparr>opt_all = True, opt_devDependencies = False, opt_gt = None, opt_limit = None\<rparr>"

text \<open>The manifests of the scenarios.\<close>

definition a100 :: manifest where
  "a100 = \<lparr>name = ''a'', version = ''1.0.0'', dependencies = Some [(''b'', ''^1.2.0'')],
           devDependencies = None\<rparr>"

definition a200 :: manifest where
  "a200 = \<lparr>name = ''a'', version = ''2.0.0'', dependencies = Some [], devDependencies = None\<rparr>"

definition x100 :: manifest where
  "x100 = \<lparr>name = ''x'', version = ''1.0.0'', dependencies = Some [(''y'', ''~2.3.0'')],
           devDependencies = None\<rparr>"

definition c100 :: manifest where
  "c100 = \<lparr>name = ''c'', version = ''1.0.0'',
           dependencies = Some [(''b'', ''<=1.2.3''), (''d'', ''not-a-range'')],
           devDependencies = None\<rparr>"

text \<open>
  The store after \<open>a@1.0.0\<close>, which depends on \<open>b\<close>, and then \<open>a@2.0.0\<close>, which does not:
  the entry \<^verbatim>\<open>!index-latest!dep!b!a\<close> is stale.
\<close>

definition after_drop :: state where
  "after_drop = run node empty_state [Store reliable a100, Store reliable a200]"

section \<open>Properties\<close>

subsection \<open>Strings under the lexicographic order\<close>

lemma less_append_sep:
  "x < y \<Longrightarrow> list_all (\<lambda>c. CHR ''!'' < c) y \<Longrightarrow> x @ CHR ''!'' # r < y @ CHR ''!'' # s"
proof (induction x arbitrary: y)
  case Nil
  then show ?case by (cases y) auto
next
  case (Cons a x)
  then show ?case by (cases y) auto
qed

lemma append_less_cancel: "(p @ x < p @ y) = (x < (y::string))"
  by (induction p) auto

lemma between_prefix:
  "p @ g < k \<Longrightarrow> k < p @ h \<Longrightarrow> prefix p (k::string)"
proof (induction p arbitrary: k)
  case Nil
  then show ?case by simp
next
  case (Cons c p)
  then show ?case by (cases k) auto
qed

subsection \<open>The codec\<close>

lemma lexSemver_mono:
  assumes "order_preserving_below N P" "components_below N w" "semver_less v w"
  shows "lexSemver P v < lexSemver P w"
proof -
  have mono: "\<And>a b. a < b \<Longrightarrow> b < N \<Longrightarrow> P a < P b"
    and hex: "\<And>a. list_all (\<lambda>c. CHR ''!'' < c) (P a)"
    using assms(1) by (auto simp: order_preserving_below_def list_all_iff)
  have w: "major w < N" "minor w < N" "patch w < N"
    using assms(2) by (simp_all add: components_below_def)
  from assms(3) consider
      (ma) "major v < major w"
    | (mi) "major v = major w" "minor v < minor w"
    | (pa) "major v = major w" "minor v = minor w" "patch v < patch w"
    by (auto simp: semver_less_def)
  then show ?thesis
  proof cases
    case ma
    then show ?thesis unfolding lexSemver_def
      using less_append_sep[OF mono[OF ma w(1)] hex] by simp
  next
    case mi
    then show ?thesis unfolding lexSemver_def
      using less_append_sep[OF mono[OF mi(2) w(2)] hex] by (simp add: append_less_cancel)
  next
    case pa
    then show ?thesis unfolding lexSemver_def
      using mono[OF pa(3) w(3)] by (simp add: append_less_cancel)
  qed
qed

lemma semver_trichotomy: "semver_less v w \<or> semver_eq v w \<or> semver_less w v"
  unfolding semver_less_def semver_eq_def by arith

lemma lexSemver_cong: "semver_eq v w \<Longrightarrow> lexSemver P v = lexSemver P w"
  by (simp add: lexSemver_def semver_eq_def)

lemma lexSemver_above_x00:
  assumes "order_preserving_below N P"
  shows "x00 < lexSemver P v"
proof -
  have "list_all (\<lambda>c. CHR ''!'' < c) (P (major v))"
    using assms by (auto simp: order_preserving_below_def list_all_iff)
  then show ?thesis
    by (cases "P (major v)") (auto simp: x00_def lexSemver_def less_char_def)
qed

lemma lexSemver_below_xff:
  assumes "order_preserving_below N P"
  shows "lexSemver P v < xff"
proof -
  have "list_all (\<lambda>c. c < CHR 0xFF) (P (major v))"
    using assms by (auto simp: order_preserving_below_def list_all_iff)
  then show ?thesis
    by (cases "P (major v)") (auto simp: xff_def lexSemver_def)
qed

lemma components_below_inc_patch: "components_below N (inc_patch v) \<Longrightarrow> components_below N v"
  by (simp add: components_below_def inc_patch_def)

subsection \<open>The concrete environment meets the hypotheses\<close>

lemma unary_hex_less: "a < b \<Longrightarrow> unary_hex a < unary_hex b"
proof (induction a arbitrary: b)
  case 0
  then show ?case by (cases b) (auto simp: unary_hex_def)
next
  case (Suc a)
  then show ?case by (cases b) (auto simp: unary_hex_def)
qed

lemma unary_hex_order_preserving: "order_preserving_below N unary_hex"
  unfolding order_preserving_below_def
  by (auto simp: unary_hex_less) (auto simp: unary_hex_def list_all_iff)

subsection \<open>The encoder of \<^verbatim>\<open>lexicographic-integer\<close> preserves the order up to \<open>2^44 + 251\<close>\<close>

text \<open>
  Two hexadecimal digits per byte keep the order of byte sequences; the tag byte grows with
  the number of bytes that follow it; and below \<open>2^44\<close> the 44-bit mantissa holds
  \<open>n - 251\<close> exactly.
\<close>

lemma hex_lower_mono: "a < b \<Longrightarrow> b < 16 \<Longrightarrow> hex_lower a < hex_lower b"
proof -
  assume ab: "a < b" "b < 16"
  have "sorted_wrt (<) ''0123456789abcdef''" by simp
  from sorted_wrt_nth_less[OF this, of a b] ab show ?thesis by (simp add: hex_lower_def)
qed

lemma hex_lower_range: "d < 16 \<Longrightarrow> CHR ''!'' < hex_lower d \<and> hex_lower d < CHR 0xFF"
proof -
  assume d: "d < 16"
  have "list_all (\<lambda>c. CHR ''!'' < c \<and> c < CHR 0xFF) ''0123456789abcdef''" by simp
  then show ?thesis using d unfolding hex_lower_def list_all_length by simp
qed

lemma toString16_range: "list_all (\<lambda>c. CHR ''!'' < c \<and> c < CHR 0xFF) (toString16 b)"
proof (induction b rule: toString16.induct)
  case (1 b)
  show ?case
  proof (cases "b < 16")
    case True
    then show ?thesis using hex_lower_range[of b] by (simp add: toString16.simps)
  next
    case False
    have "b mod 16 < 16" by simp
    with False 1 hex_lower_range[of "b mod 16"] show ?thesis
      by (subst toString16.simps) simp
  qed
qed

lemma encodeHex_range: "list_all (\<lambda>c. CHR ''!'' < c \<and> c < CHR 0xFF) (encodeHex bs)"
  using toString16_range by (induction bs) (auto simp: encodeHex_def)

lemma encodeHex_Nil: "encodeHex [] = []"
  by (simp add: encodeHex_def)

lemma encodeHex_Cons:
  "b < 256 \<Longrightarrow> encodeHex (b # bs) = hex_lower (b div 16) # hex_lower (b mod 16) # encodeHex bs"
proof (cases "b < 16")
  case True
  then show ?thesis by (simp add: encodeHex_def toString16.simps hex_lower_def)
next
  case False
  assume "b < 256"
  then have "b div 16 < 16" by simp
  with False show ?thesis
    by (simp add: encodeHex_def toString16.simps[of b] toString16.simps[of "b div 16"])
qed

lemma digit_step:
  assumes "a < (b::nat)"
  shows "a div c < b div c \<or> (a div c = b div c \<and> a mod c < b mod c)"
proof (cases "a div c = b div c")
  case True
  have "a div c * c + a mod c < b div c * c + b mod c"
    using assms by (simp only: div_mult_mod_eq)
  then have "b div c * c + a mod c < b div c * c + b mod c"
    by (simp only: True)
  then have "a mod c < b mod c" by (simp only: add_less_cancel_left)
  with True show ?thesis by simp
next
  case False
  with div_le_mono[of a b c] assms show ?thesis by simp
qed

lemma byte_less:
  assumes "a < b" "b < (256::nat)"
  shows "hex_lower (a div 16) < hex_lower (b div 16) \<or>
         (hex_lower (a div 16) = hex_lower (b div 16) \<and> hex_lower (a mod 16) < hex_lower (b mod 16))"
proof -
  have b: "b div 16 < 16" "b mod 16 < 16" using assms(2) by simp_all
  from digit_step[OF assms(1), of 16] show ?thesis
  proof
    assume "a div 16 < b div 16"
    then show ?thesis using hex_lower_mono[OF _ b(1)] by simp
  next
    assume "a div 16 = b div 16 \<and> a mod 16 < b mod 16"
    then show ?thesis using hex_lower_mono[OF _ b(2)] by simp
  qed
qed

lemma encodeHex_less:
  "xs < ys \<Longrightarrow> \<forall>b\<in>set xs. b < 256 \<Longrightarrow> \<forall>b\<in>set ys. b < 256 \<Longrightarrow> encodeHex xs < encodeHex ys"
proof (induction xs arbitrary: ys)
  case Nil
  then show ?case by (cases ys) (auto simp: encodeHex_Nil encodeHex_Cons)
next
  case (Cons x xs)
  then obtain y ys' where ys: "ys = y # ys'" by (cases ys) auto
  with Cons.prems have xy: "x < y \<or> (x = y \<and> xs < ys')" and b: "x < 256" "y < 256" by simp_all
  from xy show ?case
  proof
    assume "x < y"
    from byte_less[OF this b(2)] show ?thesis using ys b by (auto simp: encodeHex_Cons)
  next
    assume "x = y \<and> xs < ys'"
    with Cons.IH[of ys'] Cons.prems ys b show ?thesis by (simp add: encodeHex_Cons)
  qed
qed

lemma less_append_same_length:
  "length u = length v \<Longrightarrow> u < v \<Longrightarrow> u @ s < v @ (t::nat list)"
proof (induction u arbitrary: v)
  case Nil
  then show ?case by simp
next
  case (Cons a u)
  then show ?case by (cases v) auto
qed

lemma less_append_same_prefix: "(p @ x < p @ y) = (x < (y::nat list))"
  by (induction p) auto

lemma length_be: "length (be k x) = k"
  by (induction k arbitrary: x) simp_all

lemma be_bytes: "\<forall>b\<in>set (be k x). b < 256"
  by (induction k arbitrary: x) simp_all

lemma be_less: "a < b \<Longrightarrow> b < 256 ^ k \<Longrightarrow> be k a < be k b"
proof (induction k arbitrary: a b)
  case 0
  then show ?case by simp
next
  case (Suc k)
  from digit_step[OF Suc.prems(1), of 256] show ?case
  proof
    assume d: "a div 256 < b div 256"
    from Suc.prems(2) have "b div 256 < 256 ^ k" by (simp add: less_mult_imp_div_less mult.commute)
    from Suc.IH[OF d this] show ?thesis
      using less_append_same_length[of "be k (a div 256)" "be k (b div 256)"] by (simp add: length_be)
  next
    assume "a div 256 = b div 256 \<and> a mod 256 < b mod 256"
    then show ?thesis by (simp add: less_append_same_prefix)
  qed
qed

lemma log2_bounds: "0 < x \<Longrightarrow> 2 ^ log2 x \<le> x \<and> x < 2 ^ (log2 x + 1)"
proof (induction x rule: log2.induct)
  case (1 x)
  show ?case
  proof (cases "x < 2")
    case True
    with 1(2) show ?thesis by (simp add: log2.simps)
  next
    case False
    then have "0 < x div 2" by simp
    from 1(1)[OF False this] False show ?thesis
      by (subst log2.simps, subst (2) log2.simps) (simp, arith)
  qed
qed

lemma log2_mono: "0 < a \<Longrightarrow> a \<le> b \<Longrightarrow> log2 a \<le> log2 b"
proof (rule ccontr)
  assume a: "0 < a" "a \<le> b" and "\<not> log2 a \<le> log2 b"
  then have "log2 b + 1 \<le> log2 a" by simp
  then have "(2::nat) ^ (log2 b + 1) \<le> 2 ^ log2 a" by (rule power_increasing) simp
  with log2_bounds[of a] log2_bounds[of b] a show False by simp
qed

lemma log2_less: "0 < x \<Longrightarrow> x < 2 ^ k \<Longrightarrow> log2 x < k"
proof -
  assume x: "0 < x" "x < 2 ^ k"
  from log2_bounds[OF x(1)] have "2 ^ log2 x \<le> x" by simp
  from this x(2) have "(2::nat) ^ log2 x < 2 ^ k" by (rule le_less_trans)
  then show ?thesis by (simp only: power_strict_increasing_iff one_less_numeral_iff semiring_norm)
qed

lemma log2_ge: "2 ^ k \<le> x \<Longrightarrow> k \<le> log2 x"
proof -
  assume x: "2 ^ k \<le> x"
  have "0 < (2::nat) ^ k" by simp
  from this x have "0 < x" by (rule less_le_trans)
  from log2_bounds[OF this] have "x < 2 ^ (log2 x + 1)" by simp
  from x this have "(2::nat) ^ k < 2 ^ (log2 x + 1)" by (rule le_less_trans)
  then have "k < log2 x + 1"
    by (simp only: power_strict_increasing_iff one_less_numeral_iff semiring_norm)
  then show ?thesis by simp
qed


lemma bytesOf_be: "bytesOf m = be (Suc (Suc (Suc (Suc (Suc (Suc 0)))))) m"
  by (simp add: bytesOf_def div_mult2_eq[symmetric])

lemma bytesOf_less: "a < b \<Longrightarrow> b < 2 ^ 48 \<Longrightarrow> bytesOf a < bytesOf b"
  unfolding bytesOf_be by (rule be_less) simp_all

lemma lexi_pack_array_small: "n < 251 \<Longrightarrow> lexi_pack_array n = [n]"
  by (simp add: lexi_pack_array.simps[of n])

lemma lexi_pack_array_one: "251 \<le> n \<Longrightarrow> n - 251 < 256 \<Longrightarrow> lexi_pack_array n = [251, n - 251]"
  by (simp add: lexi_pack_array.simps[of n] Let_def)

lemma lexi_pack_array_two:
  "251 \<le> n \<Longrightarrow> 256 \<le> n - 251 \<Longrightarrow> n - 251 < 65536 \<Longrightarrow>
   lexi_pack_array n = [252, (n - 251) div 256, (n - 251) mod 256]"
  by (simp add: lexi_pack_array.simps[of n] Let_def)

lemma lexi_pack_array_three:
  "251 \<le> n \<Longrightarrow> 65536 \<le> n - 251 \<Longrightarrow> n - 251 < 16777216 \<Longrightarrow>
   lexi_pack_array n = [253, (n - 251) div 256 div 256, ((n - 251) div 256) mod 256, (n - 251) mod 256]"
  by (simp add: lexi_pack_array.simps[of n] Let_def)

lemma lexi_pack_array_four:
  "251 \<le> n \<Longrightarrow> 16777216 \<le> n - 251 \<Longrightarrow> n - 251 < 4294967296 \<Longrightarrow>
   lexi_pack_array n = [254, (n - 251) div 256 div 256 div 256, ((n - 251) div 256 div 256) mod 256,
             ((n - 251) div 256) mod 256, (n - 251) mod 256]"
  by (simp add: lexi_pack_array.simps[of n] Let_def)

lemma lexi_pack_array_float:
  assumes "251 \<le> n" "2 ^ 32 \<le> n - 251" "n - 251 < 2 ^ 44"
  shows "lexi_pack_array n = 255 # (log2 (n - 251) - 32) # bytesOf ((n - 251) * 2 ^ (43 - log2 (n - 251)))"
proof -
  let ?x = "n - 251"
  have lo: "32 \<le> log2 ?x" using assms(2) by (rule log2_ge)
  have "0 < ?x" using assms(2) by simp
  then have hi: "log2 ?x < 44" using assms(3) by (rule log2_less)
  from lo hi have e: "log2 ?x - 32 < 251" "11 - (log2 ?x - 32) = 43 - log2 ?x" by simp_all
  have m: "(if 11 \<le> log2 ?x - 32 then ?x div 2 ^ (log2 ?x - 32 - 11)
            else ?x * 2 ^ (11 - (log2 ?x - 32)))
           = ?x * 2 ^ (43 - log2 ?x)"
  proof (cases "11 \<le> log2 ?x - 32")
    case True
    with hi have "log2 ?x = 43" by simp
    then show ?thesis by simp
  next
    case False
    then show ?thesis using e(2) by simp
  qed
  have "\<not> ?x < 4294967296" using assms(2) by simp
  then have "lexi_pack_array n = [255] @ lexi_pack_array (log2 ?x - 32) @
      bytesOf (if 11 \<le> log2 ?x - 32 then ?x div 2 ^ (log2 ?x - 32 - 11)
               else ?x * 2 ^ (11 - (log2 ?x - 32)))"
    using assms(1) by (simp add: lexi_pack_array.simps[of n] Let_def)
  also have "\<dots> = [255] @ [log2 ?x - 32] @ bytesOf (?x * 2 ^ (43 - log2 ?x))"
    by (simp only: m lexi_pack_array_small[OF e(1)])
  finally show ?thesis by simp
qed

lemma lexi_pack_array_bytes: "\<forall>b\<in>set (lexi_pack_array n). b < 256"
proof (induction n rule: lexi_pack_array.induct)
  case (1 n)
  have b: "\<forall>b\<in>set (bytesOf m). b < 256" for m by (simp add: bytesOf_def)
  show ?case
  proof (cases "n < 251 \<or> n - 251 < 4294967296")
    case True
    then show ?thesis by (subst lexi_pack_array.simps) (auto simp: Let_def)
  next
    case False
    with 1[OF refl _ _ _ _ _ refl] have "\<forall>b\<in>set (lexi_pack_array (log2 (n - 251) - 32)). b < 256" by simp
    with False b show ?thesis by (subst lexi_pack_array.simps) (auto simp: Let_def)
  qed
qed

lemma lexi_pack_array_head:
  "lexi_pack_array n \<noteq> []"
  "n < 251 \<Longrightarrow> hd (lexi_pack_array n) < 251"
  "n - 251 < 256 \<Longrightarrow> hd (lexi_pack_array n) < 252"
  "n - 251 < 65536 \<Longrightarrow> hd (lexi_pack_array n) < 253"
  "n - 251 < 16777216 \<Longrightarrow> hd (lexi_pack_array n) < 254"
  "n - 251 < 4294967296 \<Longrightarrow> hd (lexi_pack_array n) < 255"
  by (simp_all add: lexi_pack_array.simps[of n] Let_def)

lemma less_by_head: "xs \<noteq> [] \<Longrightarrow> hd xs < t \<Longrightarrow> xs < t # (r::nat list)"
  by (cases xs) simp_all

lemma digits2_less:
  "x < y \<Longrightarrow> [x div 256, x mod 256] < [y div 256, y mod (256::nat)]"
  using digit_step[of x y 256] by simp

lemma digits3_less:
  assumes "x < (y::nat)"
  shows "[x div 256 div 256, (x div 256) mod 256, x mod 256]
         < [y div 256 div 256, (y div 256) mod 256, y mod 256]"
proof -
  from digit_step[OF assms, of 256] show ?thesis
  proof
    assume "x div 256 < y div 256"
    from digits2_less[OF this] show ?thesis
      using less_append_same_length[of "[x div 256 div 256, (x div 256) mod 256]"
          "[y div 256 div 256, (y div 256) mod 256]" "[x mod 256]" "[y mod 256]"]
      by simp
  next
    assume "x div 256 = y div 256 \<and> x mod 256 < y mod 256"
    then show ?thesis by simp
  qed
qed

lemma digits4_less:
  assumes "x < (y::nat)"
  shows "[x div 256 div 256 div 256, (x div 256 div 256) mod 256, (x div 256) mod 256, x mod 256]
         < [y div 256 div 256 div 256, (y div 256 div 256) mod 256, (y div 256) mod 256, y mod 256]"
proof -
  from digit_step[OF assms, of 256] show ?thesis
  proof
    assume "x div 256 < y div 256"
    from digits3_less[OF this] show ?thesis
      using less_append_same_length[of
          "[x div 256 div 256 div 256, (x div 256 div 256) mod 256, (x div 256) mod 256]"
          "[y div 256 div 256 div 256, (y div 256 div 256) mod 256, (y div 256) mod 256]"
          "[x mod 256]" "[y mod 256]"]
      by simp
  next
    assume "x div 256 = y div 256 \<and> x mod 256 < y mod 256"
    then show ?thesis by simp
  qed
qed

lemma lexi_pack_array_classes:
  assumes "b < 2 ^ 44 + (252::nat)"
  obtains (small) "b < 251"
    | (one) "251 \<le> b" "b - 251 < 256"
    | (two) "251 \<le> b" "256 \<le> b - 251" "b - 251 < 65536"
    | (three) "251 \<le> b" "65536 \<le> b - 251" "b - 251 < 16777216"
    | (four) "251 \<le> b" "16777216 \<le> b - 251" "b - 251 < 4294967296"
    | (float) "251 \<le> b" "2 ^ 32 \<le> b - 251" "b - 251 < 2 ^ 44"
    | (top) "b = 2 ^ 44 + 251"
proof -
  have "b - 251 < 2 ^ 44 \<or> b = 2 ^ 44 + 251" using assms by (simp, arith)
  then show ?thesis using that by (cases "b < 251") (simp, fastforce)
qed


lemma lexi_pack_array_less_float:
  assumes xy: "a - 251 < b - 251"
    and fa: "251 \<le> a" "2 ^ 32 \<le> a - 251" "a - 251 < 2 ^ 44"
    and fb: "251 \<le> b" "2 ^ 32 \<le> b - 251" "b - 251 < 2 ^ 44"
  shows "lexi_pack_array a < lexi_pack_array b"
proof -
  let ?x = "a - 251" and ?y = "b - 251"
  have pos: "0 < ?x" "0 < ?y" using fa(2) fb(2) by simp_all
  have le: "log2 ?x \<le> log2 ?y" using pos(1) xy by (simp add: log2_mono)
  have lo: "32 \<le> log2 ?x" using fa(2) by (rule log2_ge)
  have hi: "log2 ?y < 44" using pos(2) fb(3) by (rule log2_less)
  show ?thesis
  proof (cases "log2 ?x = log2 ?y")
    case True
    have "?y < 2 ^ (log2 ?y + 1)" using log2_bounds[OF pos(2)] by simp
    then have "?y * 2 ^ (43 - log2 ?y) < 2 ^ (log2 ?y + 1) * 2 ^ (43 - log2 ?y)" by simp
    also have "\<dots> = 2 ^ 44" using hi by (simp add: power_add[symmetric] del: power_Suc)
    also have "\<dots> \<le> (2::nat) ^ 48" by simp
    finally have top: "?y * 2 ^ (43 - log2 ?y) < 2 ^ 48" .
    have "?x * 2 ^ (43 - log2 ?y) < ?y * 2 ^ (43 - log2 ?y)" using xy by simp
    from bytesOf_less[OF this top] True show ?thesis
      by (simp add: lexi_pack_array_float[OF fa] lexi_pack_array_float[OF fb])
  next
    case False
    with le lo have "log2 ?x - 32 < log2 ?y - 32" by simp
    then show ?thesis
      by (simp add: lexi_pack_array_float[OF fa] lexi_pack_array_float[OF fb])
  qed
qed


lemma lexi_pack_array_top: "lexi_pack_array (2 ^ 44 + 251) = [255, 12, 8, 0, 0, 0, 0, 0]"
  by (simp add: lexi_pack_array.simps log2.simps bytesOf_def Let_def)

lemma lexi_pack_array_less:
  assumes ab: "a < b" and b: "b < 2 ^ 44 + 252"
  shows "lexi_pack_array a < lexi_pack_array b"
  using b
proof (cases rule: lexi_pack_array_classes)
  case small
  with ab show ?thesis by (simp add: lexi_pack_array_small)
next
  case one
  show ?thesis
  proof (cases "a < 251")
    case True
    from less_by_head[OF lexi_pack_array_head(1) lexi_pack_array_head(2)[OF True]] show ?thesis
      by (simp add: lexi_pack_array_one[OF one])
  next
    case False
    with ab one show ?thesis by (simp add: lexi_pack_array_one)
  qed
next
  case two
  show ?thesis
  proof (cases "a - 251 < 256")
    case True
    from less_by_head[OF lexi_pack_array_head(1) lexi_pack_array_head(3)[OF True]] show ?thesis
      by (simp add: lexi_pack_array_two[OF two])
  next
    case False
    with ab two have a: "251 \<le> a" "256 \<le> a - 251" "a - 251 < 65536" and xy: "a - 251 < b - 251"
      by simp_all
    from digits2_less[OF xy] show ?thesis by (simp add: lexi_pack_array_two[OF two] lexi_pack_array_two[OF a])
  qed
next
  case three
  show ?thesis
  proof (cases "a - 251 < 65536")
    case True
    from less_by_head[OF lexi_pack_array_head(1) lexi_pack_array_head(4)[OF True]] show ?thesis
      by (simp add: lexi_pack_array_three[OF three])
  next
    case False
    with ab three have a: "251 \<le> a" "65536 \<le> a - 251" "a - 251 < 16777216"
      and xy: "a - 251 < b - 251"
      by simp_all
    from digits3_less[OF xy] show ?thesis by (simp add: lexi_pack_array_three[OF three] lexi_pack_array_three[OF a])
  qed
next
  case four
  show ?thesis
  proof (cases "a - 251 < 16777216")
    case True
    from less_by_head[OF lexi_pack_array_head(1) lexi_pack_array_head(5)[OF True]] show ?thesis
      by (simp add: lexi_pack_array_four[OF four])
  next
    case False
    with ab four have a: "251 \<le> a" "16777216 \<le> a - 251" "a - 251 < 4294967296"
      and xy: "a - 251 < b - 251"
      by simp_all
    from digits4_less[OF xy] show ?thesis by (simp add: lexi_pack_array_four[OF four] lexi_pack_array_four[OF a])
  qed
next
  case float
  show ?thesis
  proof (cases "a - 251 < 4294967296")
    case True
    from less_by_head[OF lexi_pack_array_head(1) lexi_pack_array_head(6)[OF True]] show ?thesis
      by (simp add: lexi_pack_array_float[OF float])
  next
    case False
    with ab float have a: "251 \<le> a" "2 ^ 32 \<le> a - 251" "a - 251 < 2 ^ 44"
      and xy: "a - 251 < b - 251"
      by simp_all
    from xy a float show ?thesis by (rule lexi_pack_array_less_float)
  qed
next
  case top
  then have pt: "lexi_pack_array b = [255, 12, 8, 0, 0, 0, 0, 0]" by (simp only: lexi_pack_array_top)
  show ?thesis
  proof (cases "a - 251 < 4294967296")
    case True
    from less_by_head[OF lexi_pack_array_head(1) lexi_pack_array_head(6)[OF True]] show ?thesis
      by (simp only: pt)
  next
    case False
    with ab top have a: "251 \<le> a" "2 ^ 32 \<le> a - 251" "a - 251 < 2 ^ 44" by simp_all
    have "0 < a - 251" using a(2) by simp
    then have "log2 (a - 251) < 44" using a(3) by (rule log2_less)
    then have "log2 (a - 251) - 32 < 12" by simp
    then show ?thesis by (simp add: pt lexi_pack_array_float[OF a])
  qed
qed

lemma lexi_pack_hex_less: "a < b \<Longrightarrow> b < 2 ^ 44 + 252 \<Longrightarrow> lexi_pack_hex a < lexi_pack_hex b"
  unfolding lexi_pack_hex_def using lexi_pack_array_bytes by (intro encodeHex_less lexi_pack_array_less)

lemma lexi_pack_hex_range: "list_all (\<lambda>c. CHR ''!'' < c \<and> c < CHR 0xFF) (lexi_pack_hex n)"
  unfolding lexi_pack_hex_def by (rule encodeHex_range)


lemma lexi_pack_hex_order_preserving: "order_preserving_below (2 ^ 44 + 252) lexi_pack_hex"
  unfolding order_preserving_below_def
  using lexi_pack_hex_less lexi_pack_hex_range by blast

lemma lexi_pack_hex_samples:
  "lexi_pack_hex 0 = ''00''"
  "lexi_pack_hex (Suc 0) = ''01''"
  "lexi_pack_hex 17592186044666 = ''ff0b0fffffffffff''"
  "lexi_pack_hex 17592186044667 = ''ff0c080000000000''"
  "lexi_pack_hex 17592186044668 = ''ff0c080000000000''"
  by (simp_all add: lexi_pack_hex_def lexi_pack_array.simps log2.simps bytesOf_def encodeHex_def
      toString16.simps hex_lower_def Let_def)

lemma lexi_pack_hex_bound_sharp: "\<not> order_preserving_below (2 ^ 44 + 253) lexi_pack_hex"
proof
  assume "order_preserving_below (2 ^ 44 + 253) lexi_pack_hex"
  then have "17592186044667 < (17592186044668::nat) \<and> 17592186044668 < (2 ^ 44 + 253::nat)
             \<longrightarrow> lexi_pack_hex 17592186044667 < lexi_pack_hex 17592186044668"
    unfolding order_preserving_below_def by blast
  then show False by (simp add: lexi_pack_hex_samples)
qed

subsection \<open>C9: encoding monotonicity\<close>

text \<open>
  C9, as stated, orders the packed strings of any two version triples as the triples are
  ordered. The encoder keeps 44 bits of \<open>n - 251\<close>: from \<open>n = 2^44 + 251\<close> on, numbers
  that differ in the bits it drops are packed to the same string. The versions
  1.0.17592186044667 and 1.0.17592186044668 (the patch is \<open>2^44 + 251\<close> and the next
  number, both exact in JavaScript and accepted by \<^verbatim>\<open>semver\<close>) are in order, and their
  packed strings are equal.
\<close>

theorem lexSemver_collision:
  "semver_less (sv 1 0 17592186044667) (sv 1 0 17592186044668) \<and>
   lexSemver lexi_pack_hex (sv 1 0 17592186044667) = ''01!00!ff0c080000000000'' \<and>
   lexSemver lexi_pack_hex (sv 1 0 17592186044668) = ''01!00!ff0c080000000000'' \<and>
   \<not> lexSemver lexi_pack_hex (sv 1 0 17592186044667)
       < lexSemver lexi_pack_hex (sv 1 0 17592186044668)"
  by (simp add: semver_less_def sv_def lexSemver_def lexi_pack_hex_samples)

text \<open>
  C9, amended. For an encoder that preserves the order of the numbers below \<open>N\<close> and
  writes characters between \<^verbatim>\<open>!\<close> and \<^verbatim>\<open>\xff\<close> (\<^verbatim>\<open>lexi.pack\<close> does for \<open>N = 2^44 + 252\<close>, lemma
  \<open>lexi_pack_hex_order_preserving\<close>), \<open>lexSemver\<close> sends the numeric tuple order on the
  triples with all components below \<open>N\<close> to the bytewise order of strings, in both
  directions: \<open>v < w\<close> gives \<open>pack v < pack w\<close>, and \<open>pack v < pack w\<close> gives \<open>v < w\<close>.
  The sentinel \<^verbatim>\<open>\x00\<close> is strictly below every packed version and \<^verbatim>\<open>\xff\<close> strictly above.
\<close>

theorem lexSemver_order_below:
  assumes "order_preserving_below N P"
  shows "(components_below N v \<and> components_below N w \<longrightarrow>
          (semver_less v w \<longrightarrow> lexSemver P v < lexSemver P w) \<and>
          (lexSemver P v < lexSemver P w \<longrightarrow> semver_less v w)) \<and>
         x00 < lexSemver P v \<and> lexSemver P v < xff"
proof (intro conjI impI)
  assume "components_below N v \<and> components_below N w" and "semver_less v w"
  with assms show "lexSemver P v < lexSemver P w" by (simp add: lexSemver_mono)
next
  assume b: "components_below N v \<and> components_below N w"
    and lt: "lexSemver P v < lexSemver P w"
  from semver_trichotomy[of v w] show "semver_less v w"
  proof (elim disjE)
    assume "semver_eq v w"
    then have "lexSemver P v = lexSemver P w" by (rule lexSemver_cong)
    with lt show ?thesis by simp
  next
    assume "semver_less w v"
    with assms b have "lexSemver P w < lexSemver P v" by (simp add: lexSemver_mono)
    with lt show ?thesis by simp
  qed
next
  show "x00 < lexSemver P v" by (rule lexSemver_above_x00[OF assms])
next
  show "lexSemver P v < xff" by (rule lexSemver_below_xff[OF assms])
qed

theorem lexSemver_order_below_witness:
  "order_preserving_below (2 ^ 44 + 252) lexi_pack_hex \<and>
   components_below (2 ^ 44 + 252) (sv 1 0 17592186044666) \<and>
   components_below (2 ^ 44 + 252) (sv 1 0 17592186044667) \<and>
   semver_less (sv 1 0 17592186044666) (sv 1 0 17592186044667) \<and>
   lexSemver lexi_pack_hex (sv 1 0 17592186044666) = ''01!00!ff0b0fffffffffff'' \<and>
   lexSemver lexi_pack_hex (sv 1 0 17592186044667) = ''01!00!ff0c080000000000'' \<and>
   lexSemver lexi_pack_hex (sv 1 0 17592186044666) < lexSemver lexi_pack_hex (sv 1 0 17592186044667) \<and>
   x00 < lexSemver lexi_pack_hex (sv 1 0 17592186044666) \<and>
   lexSemver lexi_pack_hex (sv 1 0 17592186044666) < xff"
proof -
  have s: "semver_less (sv 1 0 17592186044666) (sv 1 0 17592186044667)"
    by (simp add: semver_less_def sv_def)
  have b: "components_below (2 ^ 44 + 252) (sv 1 0 17592186044666)"
    "components_below (2 ^ 44 + 252) (sv 1 0 17592186044667)"
    by (simp_all add: components_below_def sv_def)
  have e: "lexSemver lexi_pack_hex (sv 1 0 17592186044666) = ''01!00!ff0b0fffffffffff''"
    "lexSemver lexi_pack_hex (sv 1 0 17592186044667) = ''01!00!ff0c080000000000''"
    by (simp_all add: sv_def lexSemver_def lexi_pack_hex_samples)
  from lexSemver_order_below[OF lexi_pack_hex_order_preserving,
      of "sv 1 0 17592186044666" "sv 1 0 17592186044667"] s b
  have "lexSemver lexi_pack_hex (sv 1 0 17592186044666) < lexSemver lexi_pack_hex (sv 1 0 17592186044667)"
    and "x00 < lexSemver lexi_pack_hex (sv 1 0 17592186044666)"
    and "lexSemver lexi_pack_hex (sv 1 0 17592186044666) < xff"
    by simp_all
  with s b e lexi_pack_hex_order_preserving show ?thesis by simp
qed

subsection \<open>C4: the overlap test\<close>

lemma match_group:
  "(case g of (lower, upper) \<Rightarrow>
        if lower = [] \<and> U \<le> x00 then False
        else if upper = [] \<and> xff \<le> L then False
        else if \<not> list_all (\<lambda>lower. lower < U) lower then False
        else list_all (\<lambda>upper. L < upper) upper) =
   (\<not> (snd g = [] \<and> xff \<le> L) \<and> \<not> (fst g = [] \<and> U \<le> x00) \<and>
        (\<forall>l\<in>set (fst g). l < U) \<and> (\<forall>u\<in>set (snd g). L < u))"
  by (cases g) (simp add: list_all_iff)

text \<open>
  C4. For every query interval \<open>(L, U)\<close> and every stored encoded disjunction, \<open>match\<close>
  returns true if and only if some group \<open>(lowers, uppers)\<close> satisfies all of: not
  (\<open>uppers\<close> is empty and \<open>L \<ge> 0xFF\<close>); not (\<open>lowers\<close> is empty and \<open>U \<le> 0x00\<close>); every
  \<open>l\<close> in \<open>lowers\<close> has \<open>U > l\<close>; every \<open>u\<close> in \<open>uppers\<close> has \<open>L < u\<close>, all bytewise.
\<close>

theorem match_iff:
  "match rng L U =
     (\<exists>g\<in>set rng.
        \<not> (snd g = [] \<and> xff \<le> L) \<and> \<not> (fst g = [] \<and> U \<le> x00) \<and>
        (\<forall>l\<in>set (fst g). l < U) \<and> (\<forall>u\<in>set (snd g). L < u))"
  unfolding match_def list_ex_iff match_group ..

theorem match_iff_witness:
  "match [([lexSemver unary_hex (sv 1 2 0)], [lexSemver unary_hex (sv 2 0 0)])]
     (lexSemver unary_hex (sv 1 5 0)) (lexSemver unary_hex (sv 1 5 1)) \<and>
   (\<exists>g\<in>set [([lexSemver unary_hex (sv 1 2 0)], [lexSemver unary_hex (sv 2 0 0)])].
      \<not> (snd g = [] \<and> xff \<le> lexSemver unary_hex (sv 1 5 0)) \<and>
      \<not> (fst g = [] \<and> lexSemver unary_hex (sv 1 5 1) \<le> x00) \<and>
      (\<forall>l\<in>set (fst g). l < lexSemver unary_hex (sv 1 5 1)) \<and>
      (\<forall>u\<in>set (snd g). lexSemver unary_hex (sv 1 5 0) < u))"
proof -
  have m: "match [([lexSemver unary_hex (sv 1 2 0)], [lexSemver unary_hex (sv 2 0 0)])]
     (lexSemver unary_hex (sv 1 5 0)) (lexSemver unary_hex (sv 1 5 1))"
    by code_simp
  with match_iff[of "[([lexSemver unary_hex (sv 1 2 0)], [lexSemver unary_hex (sv 2 0 0)])]"
      "lexSemver unary_hex (sv 1 5 0)" "lexSemver unary_hex (sv 1 5 1)"]
  show ?thesis by blast
qed

subsection \<open>C3: normalization of a single-comparator query\<close>

text \<open>
  C3, as stated, gives \<open>(pack v, 0xFF)\<close> for \<^verbatim>\<open>>v\<close> and \<open>(0x00, pack v)\<close> for \<^verbatim>\<open><v\<close> and
  \<^verbatim>\<open><=v\<close>. The code increments the patch for \<^verbatim>\<open>>\<close> and \<^verbatim>\<open><=\<close>, and its lower bound for
  \<^verbatim>\<open><\<close> and \<^verbatim>\<open><=\<close> is the packed version 0.0.0, not the sentinel. At \<^verbatim>\<open>>1.2.3\<close> and at
  \<^verbatim>\<open><1.2.3\<close> the stated pairs are not the ones computed.
\<close>

theorem normalized_bounds_counterexample:
  "normalized_bounds unary_hex [cmpr Gt (sv 1 2 3)] \<noteq> Inr (lexSemver unary_hex (sv 1 2 3), xff) \<and>
   normalized_bounds unary_hex [cmpr Lt (sv 1 2 3)] \<noteq> Inr (x00, lexSemver unary_hex (sv 1 2 3)) \<and>
   normalized_bounds unary_hex [cmpr Le (sv 1 2 3)] \<noteq> Inr (x00, lexSemver unary_hex (sv 1 2 3))"
  by code_simp

text \<open>
  C3, amended. For a single comparator the interval \<open>(lquery, uquery)\<close> is:
  \<^verbatim>\<open>>v\<close>: \<open>(pack (inc_patch v), 0xFF)\<close>; \<^verbatim>\<open>>=v\<close>: \<open>(pack v, 0xFF)\<close>;
  \<^verbatim>\<open><v\<close>: \<open>(pack 0.0.0, pack v)\<close>; \<^verbatim>\<open><=v\<close>: \<open>(pack 0.0.0, pack (inc_patch v))\<close>;
  \<^verbatim>\<open>=v\<close>: \<open>(pack v, pack (inc_patch v))\<close>; the unset operator: \<open>(0x00, 0xFF)\<close>.
\<close>

theorem normalized_bounds_single:
  "normalized_bounds P [\<lparr>operator = Gt, semver = v\<rparr>] = Inr (lexSemver P (inc_patch v), xff) \<and>
   normalized_bounds P [\<lparr>operator = Ge, semver = v\<rparr>] = Inr (lexSemver P v, xff) \<and>
   normalized_bounds P [\<lparr>operator = Lt, semver = v\<rparr>] = Inr (lexSemver P zero_semver, lexSemver P v) \<and>
   normalized_bounds P [\<lparr>operator = Le, semver = v\<rparr>]
     = Inr (lexSemver P zero_semver, lexSemver P (inc_patch v)) \<and>
   normalized_bounds P [\<lparr>operator = Eq, semver = v\<rparr>] = Inr (lexSemver P v, lexSemver P (inc_patch v)) \<and>
   normalized_bounds P [\<lparr>operator = Unset, semver = v\<rparr>] = Inr (x00, xff)"
  by (simp add: normalized_bounds_def normalize_comparators_def query_bounds_def)

theorem normalized_bounds_single_witness:
  "normalized_bounds unary_hex [\<lparr>operator = Gt, semver = sv 1 2 3\<rparr>] = Inr (''f0!ff0!ffff0'', xff) \<and>
   normalized_bounds unary_hex [\<lparr>operator = Le, semver = sv 1 2 3\<rparr>] = Inr (''0!0!0'', ''f0!ff0!ffff0'')"
proof -
  have "lexSemver unary_hex (inc_patch (sv 1 2 3)) = ''f0!ff0!ffff0''"
    and "lexSemver unary_hex zero_semver = ''0!0!0''"
    by code_simp+
  with normalized_bounds_single[of unary_hex "sv 1 2 3"] show ?thesis by simp
qed

subsection \<open>C1: the overlap filter against the meaning of the ranges\<close>

text \<open>
  What the two encodings guarantee for a version \<open>t\<close> that a range admits. On the read
  side the interval encloses \<open>t\<close>. On the write side every lower bound is at or below \<open>t\<close>;
  every upper bound is strictly above \<open>t\<close> unless it comes from a comparator \<^verbatim>\<open><=v\<close>, which
  is stored as \<open>pack v\<close> like \<^verbatim>\<open><v\<close>, with no increment of the patch.
\<close>

lemma semver_less_inc_patch: "semver_less v (inc_patch v)"
  by (simp add: semver_less_def inc_patch_def)

lemma semver_less_trans: "semver_less a b \<Longrightarrow> semver_less b c \<Longrightarrow> semver_less a c"
  unfolding semver_less_def by arith

lemma semver_less_eq_trans: "semver_less a b \<Longrightarrow> semver_eq b c \<Longrightarrow> semver_less a c"
  unfolding semver_less_def semver_eq_def by arith

lemma semver_eq_less_trans: "semver_eq a b \<Longrightarrow> semver_less b c \<Longrightarrow> semver_less a c"
  unfolding semver_less_def semver_eq_def by arith

lemma inc_patch_le: "semver_less v t \<Longrightarrow> semver_less (inc_patch v) t \<or> semver_eq (inc_patch v) t"
  unfolding semver_less_def semver_eq_def inc_patch_def by simp arith

lemma zero_semver_le: "semver_less zero_semver t \<or> semver_eq zero_semver t"
  unfolding semver_less_def semver_eq_def zero_semver_def by simp arith

lemma lexSemver_le:
  assumes "order_preserving_below N P" "components_below N w" "semver_less v w \<or> semver_eq v w"
  shows "lexSemver P v \<le> lexSemver P w"
  using assms lexSemver_mono[of N P w v] lexSemver_cong[of v w P] by auto

lemma normalizeLower_encloses:
  assumes "order_preserving_below N P" "components_below N t"
    and "normalizeLower c = Inr l" "satisfies t c"
  shows "lexSemver P l \<le> lexSemver P t"
proof (cases "operator c")
  case Gt
  with assms(3,4) have "l = inc_patch (semver c)" "semver_less (semver c) t"
    by (auto simp: normalizeLower_def satisfies_def)
  then show ?thesis using lexSemver_le[OF assms(1,2) inc_patch_le] by simp
next
  case Ge
  with assms(3,4) have "l = semver c" "semver_less (semver c) t \<or> semver_eq (semver c) t"
    by (auto simp: normalizeLower_def satisfies_def semver_eq_def)
  then show ?thesis using lexSemver_le[OF assms(1,2)] by simp
qed (use assms(3) in \<open>auto simp: normalizeLower_def\<close>)

lemma normalizeUpper_encloses:
  assumes "order_preserving_below N P" "comparator_below N c"
    and "normalizeUpper c = Inr u" "satisfies t c"
  shows "lexSemver P t < lexSemver P u"
proof -
  have inc: "components_below N (inc_patch (semver c))"
    using assms(2) by (simp add: comparator_below_def)
  then have c: "components_below N (semver c)" by (rule components_below_inc_patch)
  show ?thesis
  proof (cases "operator c")
    case Lt
    with assms(3,4) have "u = semver c" "semver_less t (semver c)"
      by (auto simp: normalizeUpper_def satisfies_def)
    then show ?thesis using lexSemver_mono[OF assms(1) c] by simp
  next
    case Le
    with assms(3,4) have u: "u = inc_patch (semver c)"
      and "semver_less t (semver c) \<or> semver_eq t (semver c)"
      by (auto simp: normalizeUpper_def satisfies_def)
    then have "semver_less t (inc_patch (semver c))"
      using semver_less_inc_patch[of "semver c"] semver_less_trans semver_eq_less_trans by blast
    then show ?thesis using lexSemver_mono[OF assms(1) inc] u by simp
  qed (use assms(3) in \<open>auto simp: normalizeUpper_def\<close>)
qed

lemma normalized_bounds_enclose:
  assumes P: "order_preserving_below N P"
    and t: "components_below N t"
    and b: "list_all (comparator_below N) q"
    and n: "normalized_bounds P q = Inr (L, U)"
    and sat: "list_all (satisfies t) q"
  shows "L \<le> lexSemver P t \<and> lexSemver P t < U"
proof -
  note above = lexSemver_above_x00[OF P, of t] and below = lexSemver_below_xff[OF P, of t]
  have "(\<exists>c. q = [c]) \<or> (\<exists>l u. q = [l, u])"
    using n
    by (auto simp: normalized_bounds_def normalize_comparators_def
        split: list.splits if_splits sum.splits)
  then consider (one) c where "q = [c]" | (two) l u where "q = [l, u]"
    by blast
  then show ?thesis
  proof cases
    case one
    with sat have s: "satisfies t c" by simp
    from one b have inc: "components_below N (inc_patch (semver c))"
      by (simp add: comparator_below_def)
    then have c: "components_below N (semver c)" by (rule components_below_inc_patch)
    show ?thesis
    proof (cases "operator c")
      case Unset
      with n one show ?thesis using above below
        by (auto simp: normalized_bounds_def normalize_comparators_def query_bounds_def)
    next
      case Eq
      with s have e: "semver_eq t (semver c)" by (simp add: satisfies_def)
      then have "lexSemver P t = lexSemver P (semver c)" by (rule lexSemver_cong)
      moreover have "lexSemver P (semver c) < lexSemver P (inc_patch (semver c))"
        using lexSemver_mono[OF P inc semver_less_inc_patch] .
      ultimately show ?thesis using n one Eq
        by (auto simp: normalized_bounds_def normalize_comparators_def query_bounds_def)
    next
      case Lt
      with s have "semver_less t (semver c)" by (simp add: satisfies_def)
      then have "lexSemver P t < lexSemver P (semver c)" by (rule lexSemver_mono[OF P c])
      moreover have "lexSemver P zero_semver \<le> lexSemver P t"
        using lexSemver_le[OF P t zero_semver_le] .
      ultimately show ?thesis using n one Lt
        by (auto simp: normalized_bounds_def normalize_comparators_def query_bounds_def)
    next
      case Le
      with s have "semver_less t (semver c) \<or> semver_eq t (semver c)" by (simp add: satisfies_def)
      then have "semver_less t (inc_patch (semver c))"
        using semver_less_inc_patch[of "semver c"] semver_less_trans semver_eq_less_trans by blast
      then have "lexSemver P t < lexSemver P (inc_patch (semver c))"
        by (rule lexSemver_mono[OF P inc])
      moreover have "lexSemver P zero_semver \<le> lexSemver P t"
        using lexSemver_le[OF P t zero_semver_le] .
      ultimately show ?thesis using n one Le
        by (auto simp: normalized_bounds_def normalize_comparators_def query_bounds_def)
    next
      case Gt
      with s have "semver_less (semver c) t" by (simp add: satisfies_def)
      then have "lexSemver P (inc_patch (semver c)) \<le> lexSemver P t"
        using lexSemver_le[OF P t inc_patch_le] by simp
      then show ?thesis using n one Gt below
        by (auto simp: normalized_bounds_def normalize_comparators_def query_bounds_def)
    next
      case Ge
      with s have "semver_less (semver c) t \<or> semver_eq (semver c) t"
        by (auto simp: satisfies_def semver_eq_def)
      then have "lexSemver P (semver c) \<le> lexSemver P t" by (rule lexSemver_le[OF P t])
      then show ?thesis using n one Ge below
        by (auto simp: normalized_bounds_def normalize_comparators_def query_bounds_def)
    next
      case (Other x)
      with s show ?thesis by (simp add: satisfies_def)
    qed
  next
    case two
    with sat have sl: "satisfies t l" and su: "satisfies t u" by simp_all
    from two b have bu: "comparator_below N u" by simp
    from n two obtain lo up where lo: "normalizeLower l = Inr lo" and up: "normalizeUpper u = Inr up"
      and LU: "L = lexSemver P lo" "U = lexSemver P up"
      by (auto simp: normalized_bounds_def normalize_comparators_def query_bounds_def
          split: sum.splits)
    show ?thesis
      using normalizeLower_encloses[OF P t lo sl] normalizeUpper_encloses[OF P bu up su] LU
      by simp
  qed
qed

lemma push_comparator_bounds:
  assumes P: "order_preserving_below N P"
    and t: "components_below N t"
    and b: "comparator_below N c"
    and push: "push_comparator P s c = Inr s'"
    and sat: "satisfies t c"
    and noLe: "operator c \<noteq> Le"
    and lo: "\<forall>l\<in>set (fst s). l \<le> lexSemver P t"
    and up: "\<forall>u\<in>set (snd s). lexSemver P t < u"
  shows "(\<forall>l\<in>set (fst s'). l \<le> lexSemver P t) \<and> (\<forall>u\<in>set (snd s'). lexSemver P t < u)"
proof -
  have inc: "components_below N (inc_patch (semver c))"
    using b by (simp add: comparator_below_def)
  then have c: "components_below N (semver c)" by (rule components_below_inc_patch)
  show ?thesis
  proof (cases "operator c")
    case Unset
    then have "s' = (fst s @ [lexSemver P zero_semver], snd s)"
      using push by (simp add: push_comparator_def)
    then show ?thesis using lo up lexSemver_le[OF P t zero_semver_le] by auto
  next
    case Eq
    then have s': "s' = (fst s @ [lexSemver P (semver c)], snd s @ [lexSemver P (inc_patch (semver c))])"
      using push by (simp add: push_comparator_def)
    from Eq sat have "semver_eq t (semver c)" by (simp add: satisfies_def)
    then have e: "lexSemver P t = lexSemver P (semver c)" by (rule lexSemver_cong)
    have "lexSemver P (semver c) < lexSemver P (inc_patch (semver c))"
      using lexSemver_mono[OF P inc semver_less_inc_patch] .
    with e s' lo up show ?thesis by auto
  next
    case Lt
    then have s': "s' = (fst s, snd s @ [lexSemver P (semver c)])"
      using push by (simp add: push_comparator_def)
    from Lt sat have "semver_less t (semver c)" by (simp add: satisfies_def)
    then have "lexSemver P t < lexSemver P (semver c)" by (rule lexSemver_mono[OF P c])
    with s' lo up show ?thesis by auto
  next
    case Le
    with noLe show ?thesis by simp
  next
    case Gt
    then have s': "s' = (fst s @ [lexSemver P (semver c)], snd s)"
      using push by (simp add: push_comparator_def)
    from Gt sat have "semver_less (semver c) t" by (simp add: satisfies_def)
    then have "lexSemver P (semver c) \<le> lexSemver P t" using lexSemver_le[OF P t] by blast
    with s' lo up show ?thesis by auto
  next
    case Ge
    then have s': "s' = (fst s @ [lexSemver P (semver c)], snd s)"
      using push by (simp add: push_comparator_def)
    from Ge sat have "semver_less (semver c) t \<or> semver_eq (semver c) t"
      by (auto simp: satisfies_def semver_eq_def)
    then have "lexSemver P (semver c) \<le> lexSemver P t" by (rule lexSemver_le[OF P t])
    with s' lo up show ?thesis by auto
  next
    case (Other x)
    with sat show ?thesis by (simp add: satisfies_def)
  qed
qed

lemma encode_comparators_bounds:
  assumes P: "order_preserving_below N P" and t: "components_below N t"
  shows "encode_comparators P s cs = Inr s' \<Longrightarrow> list_all (satisfies t) cs \<Longrightarrow>
         list_all (\<lambda>c. operator c \<noteq> Le) cs \<Longrightarrow> list_all (comparator_below N) cs \<Longrightarrow>
         \<forall>l\<in>set (fst s). l \<le> lexSemver P t \<Longrightarrow> \<forall>u\<in>set (snd s). lexSemver P t < u \<Longrightarrow>
         (\<forall>l\<in>set (fst s'). l \<le> lexSemver P t) \<and> (\<forall>u\<in>set (snd s'). lexSemver P t < u)"
proof (induction cs arbitrary: s)
  case Nil
  then show ?case by simp
next
  case (Cons c cs)
  from Cons.prems(1) obtain s1 where push: "push_comparator P s c = Inr s1"
    and rest: "encode_comparators P s1 cs = Inr s'"
    by (auto split: sum.splits)
  from Cons.prems have c: "satisfies t c" "operator c \<noteq> Le" and b: "comparator_below N c"
    by simp_all
  from push_comparator_bounds[OF P t b push c Cons.prems(5,6)]
  have "\<forall>l\<in>set (fst s1). l \<le> lexSemver P t" "\<forall>u\<in>set (snd s1). lexSemver P t < u" by simp_all
  with Cons.IH[OF rest] Cons.prems(2,3,4) show ?case by simp
qed

lemma encode_sets_member:
  "encode_sets P sets = Inr enc \<Longrightarrow> cs \<in> set sets \<Longrightarrow>
   \<exists>g\<in>set enc. encode_comparators P ([], []) cs = Inr g"
proof (induction sets arbitrary: enc)
  case Nil
  then show ?case by simp
next
  case (Cons a sets)
  then show ?case by (auto split: sum.splits)
qed

text \<open>
  The filter has no false negative for a stored range in which no comparator \<^verbatim>\<open><=\<close> occurs:
  if one version satisfies a conjunction of the stored range and the query, \<open>match\<close> holds.
  The encoder is to preserve the order of the numbers that occur: the components of the
  common version, and those of the comparators with the patch incremented.
\<close>

lemma match_safe_without_Le:
  assumes P: "order_preserving_below N P"
    and enc: "encode_sets P sets = Inr enc"
    and q: "normalized_bounds P q = Inr (L, U)"
    and cs: "cs \<in> set sets" "list_all (satisfies t) cs" "list_all (\<lambda>c. operator c \<noteq> Le) cs"
    and sat: "list_all (satisfies t) q"
    and below: "components_below N t" "list_all (comparator_below N) cs"
      "list_all (comparator_below N) q"
  shows "match enc L U"
proof -
  from encode_sets_member[OF enc cs(1)] obtain g
    where g: "g \<in> set enc" "encode_comparators P ([], []) cs = Inr g" by blast
  from encode_comparators_bounds[OF P below(1) g(2) cs(2,3) below(2)]
  have lo: "\<forall>l\<in>set (fst g). l \<le> lexSemver P t" and up: "\<forall>u\<in>set (snd g). lexSemver P t < u"
    by simp_all
  from normalized_bounds_enclose[OF P below(1,3) q sat]
  have L: "L \<le> lexSemver P t" and U: "lexSemver P t < U" by simp_all
  have "\<not> xff \<le> L" using L lexSemver_below_xff[OF P, of t] by auto
  moreover have "\<not> U \<le> x00" using U lexSemver_above_x00[OF P, of t] by auto
  moreover have "\<forall>l\<in>set (fst g). l < U" using lo U by auto
  moreover have "\<forall>u\<in>set (snd g). L < u" using up L by auto
  ultimately show ?thesis using g(1) unfolding match_def list_ex_iff match_group by blast
qed

text \<open>
  With \<^verbatim>\<open><=\<close> the filter does lose matches, for every encoder: the stored range \<^verbatim>\<open><=v\<close> and
  the query \<^verbatim>\<open>=v\<close> both admit \<open>v\<close>, and \<open>match\<close> is false.
\<close>

lemma match_misses_Le:
  "satisfies v \<lparr>operator = Le, semver = v\<rparr> \<and> satisfies v \<lparr>operator = Eq, semver = v\<rparr> \<and>
   encode_sets P [[\<lparr>operator = Le, semver = v\<rparr>]] = Inr [([], [lexSemver P v])] \<and>
   normalized_bounds P [\<lparr>operator = Eq, semver = v\<rparr>]
     = Inr (lexSemver P v, lexSemver P (inc_patch v)) \<and>
   \<not> match [([], [lexSemver P v])] (lexSemver P v) (lexSemver P (inc_patch v))"
  by (simp add: satisfies_def semver_eq_def push_comparator_def normalized_bounds_def
      normalize_comparators_def query_bounds_def match_def)

text \<open>
  C1. The claim: whenever a stored range and an accepted query range admit a common
  version, \<open>match\<close> on the stored encoding and the normalized query is true. The code at
  the stored range \<^verbatim>\<open><=1.2.3\<close> and the query \<^verbatim>\<open>1.2.3\<close>: version 1.2.3 satisfies both, the
  stored upper bound and the query's lower bound are the same string, and \<open>match\<close> is
  false; the query over a store holding a manifest with that dependency returns nothing.
\<close>

theorem overlap_false_negative:
  "list_all (satisfies (sv 1 2 3)) [cmpr Le (sv 1 2 3)] \<and>
   list_all (satisfies (sv 1 2 3)) [cmpr Eq (sv 1 2 3)] \<and>
   encode_sets unary_hex [[cmpr Le (sv 1 2 3)]] = Inr [([], [''f0!ff0!fff0''])] \<and>
   normalized_bounds unary_hex [cmpr Eq (sv 1 2 3)] = Inr (''f0!ff0!fff0'', ''f0!ff0!ffff0'') \<and>
   \<not> match [([], [''f0!ff0!fff0''])] ''f0!ff0!fff0'' ''f0!ff0!ffff0'' \<and>
   snd (store node reliable empty_state c100) = Done None \<and>
   snd (query node reliable (fst (store node reliable empty_state c100)) ''b'' ''1.2.3'' latest_only)
     = Done \<lparr>emitted = [], failure = None\<rparr>"
  by code_simp

subsection \<open>C2: queries the reader rejects\<close>

lemma normalize_comparators_fails:
  "(\<exists>e. normalize_comparators cs = Inl e) = unsupported_shape cs"
proof (cases cs)
  case Nil
  then show ?thesis by (simp add: normalize_comparators_def unsupported_shape_def)
next
  case (Cons l cs1)
  note c1 = this
  show ?thesis
  proof (cases cs1)
    case Nil
    with c1 show ?thesis
      by (cases "operator l")
        (simp_all add: normalize_comparators_def unsupported_shape_def supported_def)
  next
    case (Cons u cs2)
    note c2 = this
    show ?thesis
    proof (cases cs2)
      case Nil
      with c1 c2 show ?thesis
        by (cases "operator l"; cases "operator u")
          (simp_all add: normalize_comparators_def unsupported_shape_def normalizeLower_def
            normalizeUpper_def)
    next
      case (Cons a cs3)
      with c1 c2 show ?thesis
        by (simp add: normalize_comparators_def unsupported_shape_def)
    qed
  qed
qed

lemma normalized_bounds_fails:
  "(\<exists>e. normalized_bounds P cs = Inl e) = unsupported_shape cs"
  unfolding normalize_comparators_fails[symmetric] normalized_bounds_def
  by (cases "normalize_comparators cs") simp_all

text \<open>
  C2, as stated, has the failure delivered through the stream or the callback and not
  thrown. The code throws from the call: at \<^verbatim>\<open>query("y", "1.0.0 || 2.0.0")\<close> the result is
  the exception of line 154, no stream ends and no callback runs.
\<close>

theorem query_or_range_counterexample:
  "snd (query node reliable empty_state ''y'' ''1.0.0 || 2.0.0'' latest_only)
     = Thrown OR_range_queries_not_supported \<and>
   (\<forall>c. snd (query node reliable empty_state ''y'' ''1.0.0 || 2.0.0'' latest_only) \<noteq> Done c)"
proof -
  have "snd (query node reliable empty_state ''y'' ''1.0.0 || 2.0.0'' latest_only)
     = Thrown OR_range_queries_not_supported"
    by code_simp
  then show ?thesis by simp
qed

text \<open>
  C2, amended. For every query whose range parses to a number of disjunction groups
  other than one, \<open>query\<close> throws \<^verbatim>\<open>OR-range queries not supported\<close> from the call itself.
  For every query with one group that is not a wildcard and whose comparators have an
  unsupported shape (more than two comparators among them), \<open>query\<close> throws from the call
  itself too. In both cases the store and the cache are as before. In every other case
  of a range that parses, the call returns its stream.
\<close>

theorem query_throws:
  assumes "semver_Range E rangeString = Some r"
  shows "(length (range_set r) \<noteq> 1 \<longrightarrow>
            query E i st nm rangeString opt = (st, Thrown OR_range_queries_not_supported)) \<and>
         (length (range_set r) = 1 \<and> range_str r \<noteq> [] \<and> unsupported_shape (hd (range_set r)) \<longrightarrow>
            (\<exists>e. query E i st nm rangeString opt = (st, Thrown e))) \<and>
         (length (range_set r) = 1 \<and> (range_str r = [] \<or> \<not> unsupported_shape (hd (range_set r))) \<longrightarrow>
            (\<exists>c. snd (query E i st nm rangeString opt) = Done c))"
proof (intro conjI impI)
  assume "length (range_set r) \<noteq> 1"
  with assms show "query E i st nm rangeString opt = (st, Thrown OR_range_queries_not_supported)"
    by (simp add: query_def Let_def)
next
  assume a: "length (range_set r) = 1 \<and> range_str r \<noteq> [] \<and> unsupported_shape (hd (range_set r))"
  then obtain e where "normalized_bounds (lexi_pack E) (hd (range_set r)) = Inl e"
    using normalized_bounds_fails[of "lexi_pack E" "hd (range_set r)"] by blast
  with a assms have "query E i st nm rangeString opt = (st, Thrown e)"
    by (simp add: query_def Let_def)
  then show "\<exists>e. query E i st nm rangeString opt = (st, Thrown e)" ..
next
  assume a: "length (range_set r) = 1 \<and> (range_str r = [] \<or> \<not> unsupported_shape (hd (range_set r)))"
  show "\<exists>c. snd (query E i st nm rangeString opt) = Done c"
  proof (cases "range_str r = []")
    case True
    with a assms show ?thesis
      by (simp add: query_def Let_def split: prod.splits)
  next
    case False
    with a have "\<not> unsupported_shape (hd (range_set r))" by simp
    then obtain b where "normalized_bounds (lexi_pack E) (hd (range_set r)) = Inr b"
      using normalized_bounds_fails[of "lexi_pack E" "hd (range_set r)"]
      by (cases "normalized_bounds (lexi_pack E) (hd (range_set r))") auto
    with a False assms show ?thesis
      by (simp add: query_def Let_def split: prod.splits)
  qed
qed

theorem query_throws_witness:
  "semver_Range node ''1.0.0 || 2.0.0''
     = Some \<lparr>range_set = [[cmpr Eq (sv 1 0 0)], [cmpr Eq (sv 2 0 0)]], range_str = ''1.0.0||2.0.0''\<rparr> \<and>
   query node reliable empty_state ''y'' ''1.0.0 || 2.0.0'' latest_only
     = (empty_state, Thrown OR_range_queries_not_supported) \<and>
   unsupported_shape [cmpr Gt (sv 1 0 0), cmpr Lt (sv 2 0 0), cmpr Lt (sv 3 0 0)] \<and>
   (\<exists>e. query node reliable empty_state ''y'' ''>1.0.0 <2.0.0 <3.0.0'' latest_only
           = (empty_state, Thrown e)) \<and>
   (\<exists>c. snd (query node reliable empty_state ''y'' ''1.5.0'' latest_only) = Done c)"
proof -
  have r1: "semver_Range node ''1.0.0 || 2.0.0''
     = Some \<lparr>range_set = [[cmpr Eq (sv 1 0 0)], [cmpr Eq (sv 2 0 0)]], range_str = ''1.0.0||2.0.0''\<rparr>"
    by (simp add: node_def sample_Range_def)
  have r2: "semver_Range node ''>1.0.0 <2.0.0 <3.0.0''
     = Some \<lparr>range_set = [[cmpr Gt (sv 1 0 0), cmpr Lt (sv 2 0 0), cmpr Lt (sv 3 0 0)]],
              range_str = ''>1.0.0 <2.0.0 <3.0.0''\<rparr>"
    by (simp add: node_def sample_Range_def)
  have r3: "semver_Range node ''1.5.0''
     = Some \<lparr>range_set = [[cmpr Eq (sv 1 5 0)]], range_str = ''1.5.0''\<rparr>"
    by (simp add: node_def sample_Range_def)
  have u: "unsupported_shape [cmpr Gt (sv 1 0 0), cmpr Lt (sv 2 0 0), cmpr Lt (sv 3 0 0)]"
    by (simp add: unsupported_shape_def)
  have s: "\<not> unsupported_shape [cmpr Eq (sv 1 5 0)]"
    by (simp add: unsupported_shape_def supported_def cmpr_def)
  show ?thesis
    using query_throws[OF r1, of reliable empty_state "''y''" latest_only]
      query_throws[OF r2, of reliable empty_state "''y''" latest_only]
      query_throws[OF r3, of reliable empty_state "''y''" latest_only] r1 u s
    by simp
qed

subsection \<open>What a query changes\<close>

lemma db_del_frame:
  "db_del i kv key = (kv', r) \<Longrightarrow>
   (\<forall>k. k \<noteq> key \<longrightarrow> map_of kv' k = map_of kv k) \<and>
   (map_of kv' key = map_of kv key \<or> map_of kv' key = None)"
  by (auto simp: db_del_def delete_conv' split: if_splits)

lemma cleanup_frame:
  "cleanup i kv key dependent pkg = (kv', r) \<Longrightarrow>
   (\<forall>k. k \<noteq> key \<longrightarrow> map_of kv' k = map_of kv k) \<and>
   (map_of kv' key = map_of kv key \<or> map_of kv' key = None)"
  unfolding cleanup_def
  by (auto split: sum.splits val.splits if_splits dest: db_del_frame)

lemma cleanup_only_when_current:
  "fst (cleanup i kv key dependent pkg) \<noteq> kv \<Longrightarrow>
   db_get i kv (''!latest-version!'' @ dependent) = Inr (Version (version pkg)) \<and>
   fst (cleanup i kv key dependent pkg) = AList.delete key kv"
  unfolding cleanup_def
  by (auto simp: db_del_def split: sum.splits val.splits if_splits)

lemma cleanup_when_current:
  "db_get i kv (''!latest-version!'' @ dependent) = Inr (Version (version pkg)) \<Longrightarrow>
   \<not> del_fails i \<Longrightarrow>
   cleanup i kv key dependent pkg = (AList.delete key kv, None)"
  by (simp add: cleanup_def db_del_def)

lemma filter_record_frame:
  assumes "filter_record E i opt nm wildcard bounds kv data = (kv', em)"
  shows "(\<forall>k. k \<noteq> fst data \<longrightarrow> map_of kv' k = map_of kv k) \<and>
         (map_of kv' (fst data) = map_of kv (fst data) \<or>
          (\<not> opt_all opt \<and> map_of kv' (fst data) = None))"
proof (cases "kv' = kv")
  case True
  then show ?thesis by simp
next
  case False
  with assms obtain pkg r where c: "cleanup i kv (fst data) (dependent_of (fst data)) pkg = (kv', r)"
    and "\<not> opt_all opt"
    unfolding filter_record_def Let_def
    by (auto split: sum.splits bool.splits val.splits if_splits prod.splits option.splits)
  with cleanup_frame[OF c] show ?thesis by auto
qed

lemma filter_record_all:
  "opt_all opt \<Longrightarrow> fst (filter_record E i opt nm wildcard bounds kv data) = kv"
  unfolding filter_record_def Let_def
  by (auto split: sum.splits bool.splits val.splits)

lemma pump_frame:
  "pump E i opt nm wildcard bounds kv records = (kv', c) \<Longrightarrow>
   map_of kv' k \<noteq> map_of kv k \<Longrightarrow>
   k \<in> fst ` set records \<and> \<not> opt_all opt \<and> map_of kv' k = None"
proof (induction records arbitrary: kv c)
  case Nil
  then show ?case by simp
next
  case (Cons data rest)
  obtain kv1 em where f: "filter_record E i opt nm wildcard bounds kv data = (kv1, em)"
    by (cases "filter_record E i opt nm wildcard bounds kv data")
  note fr = filter_record_frame[OF f]
  show ?case
  proof (cases "map_of kv' k = map_of kv1 k")
    case True
    with Cons.prems(2) have "map_of kv1 k \<noteq> map_of kv k" by simp
    with fr True show ?thesis by (cases "k = fst data") auto
  next
    case False
    then have "kv' \<noteq> kv1" by auto
    with Cons.prems(1) f obtain c1 where "pump E i opt nm wildcard bounds kv1 rest = (kv', c1)"
      by (cases em) (auto split: prod.splits)
    from Cons.IH[OF this False] show ?thesis by auto
  qed
qed

lemma pump_all:
  "opt_all opt \<Longrightarrow> fst (pump E i opt nm wildcard bounds kv records) = kv"
proof (induction records arbitrary: kv)
  case Nil
  then show ?case by simp
next
  case (Cons data rest)
  obtain kv1 em where f: "filter_record E i opt nm wildcard bounds kv data = (kv1, em)"
    by (cases "filter_record E i opt nm wildcard bounds kv data")
  with filter_record_all[OF Cons.prems, of E i nm wildcard bounds kv data] have "kv1 = kv" by simp
  with f Cons.IH[OF Cons.prems, of kv] show ?case
    by (cases em) (auto split: prod.splits)
qed

lemma createReadStream_keys:
  "d \<in> set (createReadStream kv gt lt limit) \<Longrightarrow> gt < fst d \<and> fst d < lt"
proof -
  assume d: "d \<in> set (createReadStream kv gt lt limit)"
  let ?keys = "sort (remdups (filter (\<lambda>k. gt < k \<and> k < lt) (map fst kv)))"
  let ?records = "List.map_filter (\<lambda>k. map_option (Pair k) (map_of kv k)) ?keys"
  have "set (createReadStream kv gt lt limit) \<subseteq> set ?records"
    unfolding createReadStream_def Let_def
    by (auto split: option.splits dest: in_set_takeD)
  with d have "d \<in> set ?records" by blast
  then show ?thesis
    by (auto simp: map_filter_def)
qed

lemma query_cases:
  obtains (thrown) e where "query E i st nm rangeString opt = (st, Thrown e)"
  | (streamed) w b kv' c where
      "pump E i opt (escape E nm) w b (db st)
         (createReadStream (db st)
            (keyprefix_of opt @ escape E nm @ ''!'' @ (case opt_gt opt of None \<Rightarrow> [] | Some g \<Rightarrow> g))
            (keyprefix_of opt @ escape E nm @ ''!'' @ xff) (opt_limit opt)) = (kv', c)"
      "query E i st nm rangeString opt = (st\<lparr>db := kv'\<rparr>, Done c)"
proof (cases "semver_Range E rangeString")
  case None
  then have "query E i st nm rangeString opt = (st, Thrown Invalid_range)"
    by (simp add: query_def)
  then show ?thesis by (rule thrown)
next
  case (Some r)
  show ?thesis
  proof (cases "length (range_set r) = 1")
    case False
    with Some have "query E i st nm rangeString opt = (st, Thrown OR_range_queries_not_supported)"
      by (simp add: query_def Let_def)
    then show ?thesis by (rule thrown)
  next
    case True
    note one = this
    show ?thesis
    proof (cases "range_str r = []")
      case True
      obtain kv' c where p: "pump E i opt (escape E nm) True (x00, xff) (db st)
         (createReadStream (db st)
            (keyprefix_of opt @ escape E nm @ ''!'' @ (case opt_gt opt of None \<Rightarrow> [] | Some g \<Rightarrow> g))
            (keyprefix_of opt @ escape E nm @ ''!'' @ xff) (opt_limit opt)) = (kv', c)"
        by (cases "pump E i opt (escape E nm) True (x00, xff) (db st)
         (createReadStream (db st)
            (keyprefix_of opt @ escape E nm @ ''!'' @ (case opt_gt opt of None \<Rightarrow> [] | Some g \<Rightarrow> g))
            (keyprefix_of opt @ escape E nm @ ''!'' @ xff) (opt_limit opt))")
      with Some one True have "query E i st nm rangeString opt = (st\<lparr>db := kv'\<rparr>, Done c)"
        by (simp add: query_def Let_def)
      with p show ?thesis by (rule streamed)
    next
      case False
      show ?thesis
      proof (cases "normalized_bounds (lexi_pack E) (hd (range_set r))")
        case (Inl e)
        with Some one False have "query E i st nm rangeString opt = (st, Thrown e)"
          by (simp add: query_def Let_def)
        then show ?thesis by (rule thrown)
      next
        case (Inr b)
        obtain kv' c where p: "pump E i opt (escape E nm) False b (db st)
           (createReadStream (db st)
              (keyprefix_of opt @ escape E nm @ ''!'' @ (case opt_gt opt of None \<Rightarrow> [] | Some g \<Rightarrow> g))
              (keyprefix_of opt @ escape E nm @ ''!'' @ xff) (opt_limit opt)) = (kv', c)"
          by (cases "pump E i opt (escape E nm) False b (db st)
           (createReadStream (db st)
              (keyprefix_of opt @ escape E nm @ ''!'' @ (case opt_gt opt of None \<Rightarrow> [] | Some g \<Rightarrow> g))
              (keyprefix_of opt @ escape E nm @ ''!'' @ xff) (opt_limit opt))")
        with Some one False Inr have "query E i st nm rangeString opt = (st\<lparr>db := kv'\<rparr>, Done c)"
          by (simp add: query_def Let_def)
        with p show ?thesis by (rule streamed)
      qed
    qed
  qed
qed

lemma query_lru: "lru (fst (query E i st nm rangeString opt)) = lru st"
  by (rule query_cases[of E i st nm rangeString opt]) simp_all

lemma query_frame:
  assumes "map_of (db (fst (query E i st nm rangeString opt))) k \<noteq> map_of (db st) k"
  shows "\<not> opt_all opt \<and> prefix (keyprefix_of opt @ escape E nm @ ''!'') k \<and>
         map_of (db (fst (query E i st nm rangeString opt))) k = None"
proof (rule query_cases[of E i st nm rangeString opt])
  fix e assume "query E i st nm rangeString opt = (st, Thrown e)"
  with assms show ?thesis by simp
next
  fix w b kv' c
  let ?p = "keyprefix_of opt @ escape E nm @ ''!''"
  assume p: "pump E i opt (escape E nm) w b (db st)
         (createReadStream (db st)
            (keyprefix_of opt @ escape E nm @ ''!'' @ (case opt_gt opt of None \<Rightarrow> [] | Some g \<Rightarrow> g))
            (keyprefix_of opt @ escape E nm @ ''!'' @ xff) (opt_limit opt)) = (kv', c)"
    and q: "query E i st nm rangeString opt = (st\<lparr>db := kv'\<rparr>, Done c)"
  from q assms have ne: "map_of kv' k \<noteq> map_of (db st) k" by simp
  from pump_frame[OF p ne]
  have k: "k \<in> fst ` set (createReadStream (db st)
            (keyprefix_of opt @ escape E nm @ ''!'' @ (case opt_gt opt of None \<Rightarrow> [] | Some g \<Rightarrow> g))
            (keyprefix_of opt @ escape E nm @ ''!'' @ xff) (opt_limit opt))"
    and rest: "\<not> opt_all opt" "map_of kv' k = None"
    by auto
  from k createReadStream_keys
  have "?p @ (case opt_gt opt of None \<Rightarrow> [] | Some g \<Rightarrow> g) < k" "k < ?p @ xff"
    by fastforce+
  then have "prefix ?p k" by (rule between_prefix)
  with rest q show ?thesis by simp
qed

lemma query_all:
  assumes "opt_all opt"
  shows "db (fst (query E i st nm rangeString opt)) = db st"
proof (rule query_cases[of E i st nm rangeString opt])
  fix e assume "query E i st nm rangeString opt = (st, Thrown e)"
  then show ?thesis by simp
next
  fix w b kv' c
  assume p: "pump E i opt (escape E nm) w b (db st)
         (createReadStream (db st)
            (keyprefix_of opt @ escape E nm @ ''!'' @ (case opt_gt opt of None \<Rightarrow> [] | Some g \<Rightarrow> g))
            (keyprefix_of opt @ escape E nm @ ''!'' @ xff) (opt_limit opt)) = (kv', c)"
    and q: "query E i st nm rangeString opt = (st\<lparr>db := kv'\<rparr>, Done c)"
  from pump_all[OF assms, of E i "escape E nm" w b "db st"] p have "kv' = db st"
    by (metis fst_conv)
  with q show ?thesis by simp
qed

subsection \<open>What a store changes\<close>

lemma fold_apply_op_other:
  "k \<notin> op_key ` set batch \<Longrightarrow> map_of (fold apply_op batch kv) k = map_of kv k"
proof (induction batch arbitrary: kv)
  case Nil
  then show ?case by simp
next
  case (Cons x batch)
  then show ?case by (cases x) (simp add: apply_op_def op_key_def update_conv')
qed

lemma fold_apply_op_dom:
  "map_of kv k \<noteq> None \<Longrightarrow> map_of (fold apply_op batch kv) k \<noteq> None"
proof (induction batch arbitrary: kv)
  case Nil
  then show ?case by simp
next
  case (Cons x batch)
  then show ?case by (cases x) (simp add: apply_op_def update_conv')
qed

lemma fold_apply_op_last:
  "k \<notin> op_key ` set b2 \<Longrightarrow> map_of (fold apply_op (b1 @ Put k v # b2) kv) k = Some v"
  by (simp add: fold_apply_op_other apply_op_def update_conv')

lemma store_cases:
  obtains (failed) err where "store E i st pkg = (st, Done (Some err))"
  | (thrown) e where "store E i st pkg = (st, Thrown e)"
  | (committed) latest deps devs where
      "getLatestVersion E i st (name pkg) = Inr latest"
      "batchDependencies E pkg (dependencies pkg) ''dep'' (isLatest_of E pkg latest) = Inr deps"
      "batchDependencies E pkg (devDependencies pkg) ''dev'' (isLatest_of E pkg latest) = Inr devs"
      "store E i st pkg =
         (\<lparr>db = fst (db_batch i (db st)
                  (deps @ devs @ [Put (''!pkg!'' @ escape E (name pkg) @ ''@'' @ version pkg) (Manifest pkg)]
                    @ (if isLatest_of E pkg latest
                       then [Put (''!pkg-latest!'' @ escape E (name pkg)) (Manifest pkg),
                             Put (''!latest-version!'' @ escape E (name pkg)) (Version (version pkg))]
                       else []))),
            lru = (if isLatest_of E pkg latest then (lru st)(name pkg \<mapsto> version pkg) else lru st)\<rparr>,
          Done (snd (db_batch i (db st)
                  (deps @ devs @ [Put (''!pkg!'' @ escape E (name pkg) @ ''@'' @ version pkg) (Manifest pkg)]
                    @ (if isLatest_of E pkg latest
                       then [Put (''!pkg-latest!'' @ escape E (name pkg)) (Manifest pkg),
                             Put (''!latest-version!'' @ escape E (name pkg)) (Version (version pkg))]
                       else [])))))"
proof (cases "getLatestVersion E i st (name pkg)")
  case (Inl err)
  then have "store E i st pkg = (st, Done (Some err))" by (simp add: store_def)
  then show ?thesis by (rule failed)
next
  case (Inr latest)
  note l = this
  show ?thesis
  proof (cases "batchDependencies E pkg (dependencies pkg) ''dep'' (isLatest_of E pkg latest)")
    case (Inl e)
    with l have "store E i st pkg = (st, Thrown e)" by (simp add: store_def Let_def)
    then show ?thesis by (rule thrown)
  next
    case (Inr deps)
    note d = this
    show ?thesis
    proof (cases "batchDependencies E pkg (devDependencies pkg) ''dev'' (isLatest_of E pkg latest)")
      case (Inl e)
      with l d have "store E i st pkg = (st, Thrown e)" by (simp add: store_def Let_def)
      then show ?thesis by (rule thrown)
    next
      case (Inr devs)
      show ?thesis
        by (rule committed[OF l d Inr]) (simp add: store_def Let_def l d Inr)
    qed
  qed
qed

lemma db_batch_dom:
  "map_of kv k \<noteq> None \<Longrightarrow> map_of (fst (db_batch i kv batch)) k \<noteq> None"
  using fold_apply_op_dom[of kv k batch] by (auto simp: db_batch_def)

lemma store_dom:
  assumes "map_of (db st) k \<noteq> None"
  shows "map_of (db (fst (store E i st pkg))) k \<noteq> None"
  by (rule store_cases[of E i st pkg]) (use assms in \<open>simp_all add: db_batch_dom\<close>)

lemma index_not_latest: "prefix ''!index!'' k \<Longrightarrow> \<not> prefix (''!index-latest!'' @ x) k"
  by (auto simp: prefix_def)

lemma step_keeps_index:
  assumes "prefix ''!index!'' k" "map_of (db st) k \<noteq> None"
  shows "map_of (db (step E st ev)) k \<noteq> None"
proof (cases ev)
  case (Store i pkg)
  with assms(2) show ?thesis by (simp add: step_def store_dom)
next
  case (Query i nm rangeString opt)
  have "map_of (db (fst (query E i st nm rangeString opt))) k = map_of (db st) k"
  proof (rule ccontr)
    assume "map_of (db (fst (query E i st nm rangeString opt))) k \<noteq> map_of (db st) k"
    from query_frame[OF this]
    have "\<not> opt_all opt" "prefix (keyprefix_of opt @ escape E nm @ ''!'') k" by simp_all
    then have "prefix (''!index-latest!'' @ (if opt_devDependencies opt then ''dev!'' else ''dep!'')
        @ escape E nm @ ''!'') k"
      by (simp add: keyprefix_of_def)
    with index_not_latest[OF assms(1)] show False by blast
  qed
  with Query assms(2) show ?thesis by (simp add: step_def)
next
  case (Evict names)
  with assms(2) show ?thesis by (simp add: step_def)
qed

lemma run_keeps_index:
  "prefix ''!index!'' k \<Longrightarrow> map_of (db st) k \<noteq> None \<Longrightarrow> map_of (db (run E st evs)) k \<noteq> None"
proof (induction evs arbitrary: st)
  case Nil
  then show ?case by simp
next
  case (Cons ev evs)
  from Cons.IH[OF Cons.prems(1) step_keeps_index[OF Cons.prems]] show ?case by simp
qed

lemma filter_record_emits_all:
  assumes "opt_all opt" "passes opt wildcard bounds (snd data) = Inr True"
    and "db_get i kv (''!pkg!'' @ dependent_of (fst data)) = Inr (Manifest pkg)"
  shows "filter_record E i opt nm wildcard bounds kv data = (kv, Emit pkg)"
  using assms by (simp add: filter_record_def Let_def)

subsection \<open>C8: the per-version index is stable\<close>

text \<open>
  C8. No sequence of store and query operations (and cache evictions) deletes an entry
  whose key starts with \<^verbatim>\<open>!index!\<close>: an entry present before the sequence is present after
  it. A query with \<^verbatim>\<open>all\<close> set leaves the store as it is (no cleanup delete), and its
  transform emits the manifest fetched for every record that passes the overlap filter,
  whatever that manifest declares (no re-validation).
\<close>

theorem per_version_index_stable:
  "(prefix ''!index!'' k \<and> map_of (db st) k \<noteq> None \<longrightarrow> map_of (db (run E st evs)) k \<noteq> None) \<and>
   (opt_all opt \<longrightarrow> db (fst (query E i st nm rangeString opt)) = db st) \<and>
   (opt_all opt \<and> passes opt wildcard bounds (snd data) = Inr True \<and>
    db_get i kv (''!pkg!'' @ dependent_of (fst data)) = Inr (Manifest pkg) \<longrightarrow>
      filter_record E i opt nm wildcard bounds kv data = (kv, Emit pkg))"
  using run_keeps_index[of k st E evs] query_all[of opt E i st nm rangeString]
    filter_record_emits_all[of opt wildcard bounds data i kv pkg E nm]
  by blast

theorem per_version_index_stable_witness:
  "prefix ''!index!'' ''!index!dep!b!a@1.0.0'' \<and>
   map_of (db (fst (store node reliable empty_state a100))) ''!index!dep!b!a@1.0.0'' \<noteq> None \<and>
   map_of (db (run node (fst (store node reliable empty_state a100))
                 [Store reliable a200, Query reliable ''b'' ''1.5.0'' latest_only,
                  Evict [''a''], Query reliable ''b'' ''1.5.0'' all_versions]))
      ''!index!dep!b!a@1.0.0'' \<noteq> None \<and>
   opt_all all_versions \<and>
   db (fst (query node reliable (fst (store node reliable empty_state a100))
              ''b'' ''1.5.0'' all_versions))
     = db (fst (store node reliable empty_state a100)) \<and>
   snd (query node reliable (run node empty_state [Store reliable a100, Store reliable a200])
              ''b'' ''1.5.0'' all_versions)
     = Done \<lparr>emitted = [a100], failure = None\<rparr>"
proof -
  have h: "prefix ''!index!'' ''!index!dep!b!a@1.0.0''"
    "map_of (db (fst (store node reliable empty_state a100))) ''!index!dep!b!a@1.0.0'' \<noteq> None"
    "opt_all all_versions"
    by code_simp+
  have e: "snd (query node reliable (run node empty_state [Store reliable a100, Store reliable a200])
              ''b'' ''1.5.0'' all_versions)
     = Done \<lparr>emitted = [a100], failure = None\<rparr>"
    by code_simp
  show ?thesis
    using per_version_index_stable[where k = "''!index!dep!b!a@1.0.0''"
        and st = "fst (store node reliable empty_state a100)" and E = node
        and evs = "[Store reliable a200, Query reliable ''b'' ''1.5.0'' latest_only,
          Evict [''a''], Query reliable ''b'' ''1.5.0'' all_versions]"
        and opt = all_versions and i = reliable and nm = "''b''" and rangeString = "''1.5.0''"] h e
    by simp
qed

subsection \<open>C6: lazy cleanup\<close>

lemma cleanup_aborts:
  "db_get i kv (''!latest-version!'' @ dependent) = Inr (Version v) \<Longrightarrow> v \<noteq> version pkg \<Longrightarrow>
   cleanup i kv key dependent pkg = (kv, None)"
  by (simp add: cleanup_def)

lemma cleanup_other_keys:
  "k \<noteq> key \<Longrightarrow> map_of (fst (cleanup i kv key dependent pkg)) k = map_of kv k"
  using cleanup_frame[of i kv key dependent pkg]
  by (cases "cleanup i kv key dependent pkg") simp

lemma filter_record_deletes:
  assumes "fst (filter_record E i opt nm wildcard bounds kv data) \<noteq> kv"
  shows "\<exists>pkg. db_get i kv (''!pkg-latest!'' @ dependent_of (fst data)) = Inr (Manifest pkg) \<and>
           db_get i kv (''!latest-version!'' @ dependent_of (fst data)) = Inr (Version (version pkg)) \<and>
           fst (filter_record E i opt nm wildcard bounds kv data) = AList.delete (fst data) kv"
proof -
  from assms obtain pkg where m: "db_get i kv (''!pkg-latest!'' @ dependent_of (fst data)) = Inr (Manifest pkg)"
    and f: "fst (filter_record E i opt nm wildcard bounds kv data)
              = fst (cleanup i kv (fst data) (dependent_of (fst data)) pkg)"
    unfolding filter_record_def Let_def
    by (auto split: sum.splits bool.splits val.splits if_splits prod.splits option.splits)
  from assms f have "fst (cleanup i kv (fst data) (dependent_of (fst data)) pkg) \<noteq> kv" by simp
  from cleanup_only_when_current[OF this] m f show ?thesis by auto
qed

text \<open>
  C6. The cleanup (lines 186-198) changes no key other than the scan key it is given.
  It changes the store only when the re-read \<^verbatim>\<open>!latest-version!\<close> value of the dependent
  equals the version of the manifest it was given, and then the store is the old one with
  exactly that key deleted; when the value equals that version (and the delete does not
  fail) the key is deleted; when the value is another version the cleanup aborts with the
  store as it was. The transform calls it with the manifest fetched for the scan record:
  when the transform changes the store, the manifest at \<^verbatim>\<open>!pkg-latest!\<close> of the record's
  dependent has the re-read version and the store loses exactly the record's key. Over
  a whole query every key that changes is one of the scanned \<^verbatim>\<open>!index-latest!\<close> keys of
  the queried dependency and is deleted; no manifest, no latest-version pointer and no
  other key changes, and the cache is untouched.
\<close>

theorem lazy_cleanup_exact:
  "(\<forall>k. k \<noteq> key \<longrightarrow> map_of (fst (cleanup i kv key dependent pkg)) k = map_of kv k) \<and>
   (fst (cleanup i kv key dependent pkg) \<noteq> kv \<longrightarrow>
      db_get i kv (''!latest-version!'' @ dependent) = Inr (Version (version pkg)) \<and>
      fst (cleanup i kv key dependent pkg) = AList.delete key kv) \<and>
   (db_get i kv (''!latest-version!'' @ dependent) = Inr (Version (version pkg)) \<and> \<not> del_fails i \<longrightarrow>
      cleanup i kv key dependent pkg = (AList.delete key kv, None)) \<and>
   (\<forall>v. db_get i kv (''!latest-version!'' @ dependent) = Inr (Version v) \<and> v \<noteq> version pkg \<longrightarrow>
      cleanup i kv key dependent pkg = (kv, None)) \<and>
   (fst (filter_record E i opt nm wildcard bounds kv data) \<noteq> kv \<longrightarrow>
      (\<exists>p. db_get i kv (''!pkg-latest!'' @ dependent_of (fst data)) = Inr (Manifest p) \<and>
           db_get i kv (''!latest-version!'' @ dependent_of (fst data)) = Inr (Version (version p)) \<and>
           fst (filter_record E i opt nm wildcard bounds kv data) = AList.delete (fst data) kv)) \<and>
   (\<forall>k. map_of (db (fst (query E i st nm rangeString opt))) k \<noteq> map_of (db st) k \<longrightarrow>
      \<not> opt_all opt \<and>
      prefix (''!index-latest!'' @ (if opt_devDependencies opt then ''dev!'' else ''dep!'')
                @ escape E nm @ ''!'') k \<and>
      map_of (db (fst (query E i st nm rangeString opt))) k = None) \<and>
   lru (fst (query E i st nm rangeString opt)) = lru st"
proof (intro conjI allI impI)
  fix k assume "k \<noteq> key"
  then show "map_of (fst (cleanup i kv key dependent pkg)) k = map_of kv k"
    by (rule cleanup_other_keys)
next
  assume c: "fst (cleanup i kv key dependent pkg) \<noteq> kv"
  from cleanup_only_when_current[OF c]
  show "db_get i kv (''!latest-version!'' @ dependent) = Inr (Version (version pkg))"
    and "fst (cleanup i kv key dependent pkg) = AList.delete key kv"
    by simp_all
next
  assume "db_get i kv (''!latest-version!'' @ dependent) = Inr (Version (version pkg)) \<and> \<not> del_fails i"
  then show "cleanup i kv key dependent pkg = (AList.delete key kv, None)"
    using cleanup_when_current by blast
next
  fix v assume "db_get i kv (''!latest-version!'' @ dependent) = Inr (Version v) \<and> v \<noteq> version pkg"
  then show "cleanup i kv key dependent pkg = (kv, None)"
    using cleanup_aborts by blast
next
  assume "fst (filter_record E i opt nm wildcard bounds kv data) \<noteq> kv"
  then show "\<exists>p. db_get i kv (''!pkg-latest!'' @ dependent_of (fst data)) = Inr (Manifest p) \<and>
           db_get i kv (''!latest-version!'' @ dependent_of (fst data)) = Inr (Version (version p)) \<and>
           fst (filter_record E i opt nm wildcard bounds kv data) = AList.delete (fst data) kv"
    by (rule filter_record_deletes)
next
  fix k assume a: "map_of (db (fst (query E i st nm rangeString opt))) k \<noteq> map_of (db st) k"
  note q = query_frame[OF a]
  from q show "\<not> opt_all opt" by simp
  from q have "\<not> opt_all opt" and "prefix (keyprefix_of opt @ escape E nm @ ''!'') k" by simp_all
  then show "prefix (''!index-latest!'' @ (if opt_devDependencies opt then ''dev!'' else ''dep!'')
                @ escape E nm @ ''!'') k"
    by (simp add: keyprefix_of_def)
  from q show "map_of (db (fst (query E i st nm rangeString opt))) k = None" by simp
next
  show "lru (fst (query E i st nm rangeString opt)) = lru st" by (rule query_lru)
qed

theorem lazy_cleanup_exact_witness:
  "map_of (db (fst (query node reliable after_drop ''b'' ''1.5.0'' latest_only))) ''!index-latest!dep!b!a''
     \<noteq> map_of (db after_drop) ''!index-latest!dep!b!a'' \<and>
   map_of (db (fst (query node reliable after_drop ''b'' ''1.5.0'' latest_only))) ''!index-latest!dep!b!a''
     = None \<and>
   db_get reliable (db after_drop) (''!latest-version!'' @ ''a'') = Inr (Version (version a200)) \<and>
   \<not> del_fails reliable \<and>
   cleanup reliable (db after_drop) ''!index-latest!dep!b!a'' ''a'' a200
     = (AList.delete ''!index-latest!dep!b!a'' (db after_drop), None) \<and>
   db_get reliable (db after_drop) (''!latest-version!'' @ ''a'') = Inr (Version ''2.0.0'') \<and>
   ''2.0.0'' \<noteq> version a100 \<and>
   cleanup reliable (db after_drop) ''!index-latest!dep!b!a'' ''a'' a100 = (db after_drop, None) \<and>
   map_of (db (fst (query node reliable after_drop ''b'' ''1.5.0'' latest_only))) ''!pkg!a@1.0.0''
     = map_of (db after_drop) ''!pkg!a@1.0.0'' \<and>
   snd (query node reliable after_drop ''b'' ''1.5.0'' latest_only)
     = Done \<lparr>emitted = [], failure = None\<rparr>"
proof -
  have h: "map_of (db (fst (query node reliable after_drop ''b'' ''1.5.0'' latest_only)))
       ''!index-latest!dep!b!a'' \<noteq> map_of (db after_drop) ''!index-latest!dep!b!a''"
    "db_get reliable (db after_drop) (''!latest-version!'' @ ''a'') = Inr (Version (version a200))"
    "\<not> del_fails reliable"
    "db_get reliable (db after_drop) (''!latest-version!'' @ ''a'') = Inr (Version ''2.0.0'')"
    "''2.0.0'' \<noteq> version a100"
    "map_of (db (fst (query node reliable after_drop ''b'' ''1.5.0'' latest_only))) ''!pkg!a@1.0.0''
     = map_of (db after_drop) ''!pkg!a@1.0.0''"
    "snd (query node reliable after_drop ''b'' ''1.5.0'' latest_only)
     = Done \<lparr>emitted = [], failure = None\<rparr>"
    by code_simp+
  note t1 = lazy_cleanup_exact[where i = reliable and kv = "db after_drop"
      and key = "''!index-latest!dep!b!a''" and dependent = "''a''" and pkg = a200
      and E = node and st = after_drop and nm = "''b''" and rangeString = "''1.5.0''"
      and opt = latest_only]
  note t2 = lazy_cleanup_exact[where i = reliable and kv = "db after_drop"
      and key = "''!index-latest!dep!b!a''" and dependent = "''a''" and pkg = a100]
  from t1 h(1) have "map_of (db (fst (query node reliable after_drop ''b'' ''1.5.0'' latest_only)))
       ''!index-latest!dep!b!a'' = None"
    by blast
  moreover from t1 h(2,3) have "cleanup reliable (db after_drop) ''!index-latest!dep!b!a'' ''a'' a200
     = (AList.delete ''!index-latest!dep!b!a'' (db after_drop), None)"
    by blast
  moreover from t2 h(4,5) have
    "cleanup reliable (db after_drop) ''!index-latest!dep!b!a'' ''a'' a100 = (db after_drop, None)"
    by blast
  ultimately show ?thesis using h by simp
qed

subsection \<open>The keys of a batch\<close>

lemma index_key_not_latest: "\<not> latest_family (index_key E deptype d pkg)"
  by (simp add: latest_family_def index_key_def)

lemma pkg_key_not_latest: "\<not> latest_family (pkg_key E pkg)"
  by (simp add: latest_family_def pkg_key_def)

lemma pointer_is_latest: "prefix ''!latest-version!'' k \<Longrightarrow> latest_family k"
  by (simp add: latest_family_def)

lemma index_latest_key_not_pointer: "\<not> prefix ''!latest-version!'' (index_latest_key E deptype d nm)"
  by (simp add: index_latest_key_def)

lemma pkg_latest_key_not_pointer: "\<not> prefix ''!latest-version!'' (pkg_latest_key E nm)"
  by (simp add: pkg_latest_key_def)

lemma dependency_ops_keys:
  assumes "dependency_ops E pkg deptype isLatest d = Inr ops" "x \<in> set ops"
  shows "op_key x = index_key E deptype (fst d) pkg \<or>
         (isLatest \<and> op_key x = index_latest_key E deptype (fst d) (name pkg))"
  using assms unfolding dependency_ops_def index_key_def index_latest_key_def
  by (auto simp: op_key_def split: option.splits sum.splits if_splits)

lemma batch_each_keys:
  "batch_each E pkg deptype isLatest ds = Inr batch \<Longrightarrow> x \<in> set batch \<Longrightarrow>
   \<exists>d\<in>set ds. op_key x = index_key E deptype (fst d) pkg \<or>
     (isLatest \<and> op_key x = index_latest_key E deptype (fst d) (name pkg))"
proof (induction ds arbitrary: batch)
  case Nil
  then show ?case by simp
next
  case (Cons d ds)
  from Cons.prems(1) obtain ops rest where o: "dependency_ops E pkg deptype isLatest d = Inr ops"
    and r: "batch_each E pkg deptype isLatest ds = Inr rest" and b: "batch = ops @ rest"
    by (auto split: sum.splits)
  from Cons.prems(2) b consider "x \<in> set ops" | "x \<in> set rest" by auto
  then show ?case
  proof cases
    case 1
    from dependency_ops_keys[OF o 1] show ?thesis by auto
  next
    case 2
    from Cons.IH[OF r 2] show ?thesis by auto
  qed
qed

lemma batchDependencies_keys:
  assumes "batchDependencies E pkg deps deptype isLatest = Inr batch" "x \<in> set batch"
  shows "(\<exists>d. op_key x = index_key E deptype d pkg) \<or>
         (isLatest \<and> (\<exists>d. op_key x = index_latest_key E deptype d (name pkg)))"
  using batch_each_keys[OF assms[unfolded batchDependencies_def]] by blast

text \<open>The first conjunct of the batch of a store: the index entries of both kinds.\<close>

lemma store_batch_pointer_free:
  assumes "batchDependencies E pkg (dependencies pkg) ''dep'' isLatest = Inr deps"
    and "batchDependencies E pkg (devDependencies pkg) ''dev'' isLatest = Inr devs"
    and "prefix ''!latest-version!'' k"
  shows "k \<notin> op_key ` set (deps @ devs
            @ [Put (''!pkg!'' @ escape E (name pkg) @ ''@'' @ version pkg) (Manifest pkg)])"
proof
  assume "k \<in> op_key ` set (deps @ devs
            @ [Put (''!pkg!'' @ escape E (name pkg) @ ''@'' @ version pkg) (Manifest pkg)])"
  then consider x where "x \<in> set deps" "k = op_key x" | x where "x \<in> set devs" "k = op_key x"
    | "k = ''!pkg!'' @ escape E (name pkg) @ ''@'' @ version pkg"
    by (auto simp: op_key_def)
  then show False
  proof cases
    case 1
    from batchDependencies_keys[OF assms(1) 1(1)] 1(2) assms(3) show False
      by (auto simp: index_key_def index_latest_key_def)
  next
    case 2
    from batchDependencies_keys[OF assms(2) 2(1)] 2(2) assms(3) show False
      by (auto simp: index_key_def index_latest_key_def)
  next
    case 3
    with assms(3) show False by simp
  qed
qed

lemma store_batch_not_latest:
  assumes "batchDependencies E pkg (dependencies pkg) ''dep'' False = Inr deps"
    and "batchDependencies E pkg (devDependencies pkg) ''dev'' False = Inr devs"
    and "x \<in> set (deps @ devs
            @ [Put (''!pkg!'' @ escape E (name pkg) @ ''@'' @ version pkg) (Manifest pkg)])"
  shows "op_key x = pkg_key E pkg \<or> (\<exists>d. op_key x = index_key E ''dep'' d pkg) \<or>
         (\<exists>d. op_key x = index_key E ''dev'' d pkg)"
proof -
  from assms(3) consider "x \<in> set deps" | "x \<in> set devs"
    | "x = Put (''!pkg!'' @ escape E (name pkg) @ ''@'' @ version pkg) (Manifest pkg)"
    by auto
  then show ?thesis
  proof cases
    case 1
    from batchDependencies_keys[OF assms(1) 1] show ?thesis by simp
  next
    case 2
    from batchDependencies_keys[OF assms(2) 2] show ?thesis by simp
  next
    case 3
    then show ?thesis by (simp add: op_key_def pkg_key_def)
  qed
qed

text \<open>A store that is not the latest: only per-version keys change, the cache does not.\<close>

lemma store_not_latest:
  assumes l: "getLatestVersion E i st (name pkg) = Inr latest" and n: "\<not> isLatest_of E pkg latest"
  shows "lru (fst (store E i st pkg)) = lru st"
    and "map_of (db (fst (store E i st pkg))) k \<noteq> map_of (db st) k \<Longrightarrow>
         k = pkg_key E pkg \<or> (\<exists>d. k = index_key E ''dep'' d pkg) \<or> (\<exists>d. k = index_key E ''dev'' d pkg)"
    and "latest_family k \<Longrightarrow> map_of (db (fst (store E i st pkg))) k = map_of (db st) k"
proof -
  have both: "lru (fst (store E i st pkg)) = lru st \<and>
    (map_of (db (fst (store E i st pkg))) k \<noteq> map_of (db st) k \<longrightarrow>
         k = pkg_key E pkg \<or> (\<exists>d. k = index_key E ''dep'' d pkg) \<or> (\<exists>d. k = index_key E ''dev'' d pkg))"
  proof (rule store_cases[of E i st pkg])
    fix err assume "store E i st pkg = (st, Done (Some err))"
    then show ?thesis by simp
  next
    fix e assume "store E i st pkg = (st, Thrown e)"
    then show ?thesis by simp
  next
    fix latest' deps devs
    assume l': "getLatestVersion E i st (name pkg) = Inr latest'"
      and d: "batchDependencies E pkg (dependencies pkg) ''dep'' (isLatest_of E pkg latest') = Inr deps"
      and v: "batchDependencies E pkg (devDependencies pkg) ''dev'' (isLatest_of E pkg latest') = Inr devs"
      and s: "store E i st pkg =
         (\<lparr>db = fst (db_batch i (db st)
                  (deps @ devs @ [Put (''!pkg!'' @ escape E (name pkg) @ ''@'' @ version pkg) (Manifest pkg)]
                    @ (if isLatest_of E pkg latest'
                       then [Put (''!pkg-latest!'' @ escape E (name pkg)) (Manifest pkg),
                             Put (''!latest-version!'' @ escape E (name pkg)) (Version (version pkg))]
                       else []))),
            lru = (if isLatest_of E pkg latest' then (lru st)(name pkg \<mapsto> version pkg) else lru st)\<rparr>,
          Done (snd (db_batch i (db st)
                  (deps @ devs @ [Put (''!pkg!'' @ escape E (name pkg) @ ''@'' @ version pkg) (Manifest pkg)]
                    @ (if isLatest_of E pkg latest'
                       then [Put (''!pkg-latest!'' @ escape E (name pkg)) (Manifest pkg),
                             Put (''!latest-version!'' @ escape E (name pkg)) (Version (version pkg))]
                       else [])))))"
    from l l' have "latest' = latest" by simp
    with n have nl: "\<not> isLatest_of E pkg latest'" by simp
    let ?B = "deps @ devs @ [Put (''!pkg!'' @ escape E (name pkg) @ ''@'' @ version pkg) (Manifest pkg)]"
    from s nl have st': "fst (store E i st pkg) = \<lparr>db = fst (db_batch i (db st) ?B), lru = lru st\<rparr>"
      by simp
    have "map_of (fst (db_batch i (db st) ?B)) k \<noteq> map_of (db st) k \<Longrightarrow> k \<in> op_key ` set ?B"
      using fold_apply_op_other[of k ?B "db st"] by (auto simp: db_batch_def split: if_splits)
    moreover have "k \<in> op_key ` set ?B \<Longrightarrow>
        k = pkg_key E pkg \<or> (\<exists>d. k = index_key E ''dep'' d pkg) \<or> (\<exists>d. k = index_key E ''dev'' d pkg)"
      using store_batch_not_latest[OF d[unfolded nl[THEN eq_False[THEN iffD2]]]
          v[unfolded nl[THEN eq_False[THEN iffD2]]]]
      by blast
    ultimately show ?thesis using st' by auto
  qed
  from both show "lru (fst (store E i st pkg)) = lru st" by simp
  from both show "map_of (db (fst (store E i st pkg))) k \<noteq> map_of (db st) k \<Longrightarrow>
         k = pkg_key E pkg \<or> (\<exists>d. k = index_key E ''dep'' d pkg) \<or> (\<exists>d. k = index_key E ''dev'' d pkg)"
    by simp
  with index_key_not_latest pkg_key_not_latest
  show "latest_family k \<Longrightarrow> map_of (db (fst (store E i st pkg))) k = map_of (db st) k"
    by metis
qed

subsection \<open>The latest-version pointer\<close>

lemma latest_version_key_inj: "inj (escape E) \<Longrightarrow> latest_version_key E n = latest_version_key E m \<Longrightarrow> n = m"
  by (simp add: latest_version_key_def inj_eq)

lemma db_get_Some: "db_get i kv k = Inr v \<Longrightarrow> map_of kv k = Some v"
  by (auto simp: db_get_def split: if_splits option.splits)

lemma db_get_NotFound: "db_get i kv k = Inl NotFound \<Longrightarrow> map_of kv k = None"
  by (auto simp: db_get_def split: if_splits option.splits)

text \<open>
  When a store decides that its manifest is the latest, the version is strictly greater
  than a non-empty version the pointer holds.
\<close>

lemma latest_is_newer:
  assumes tr: "gt_transitive E" and inv: "cache_ahead E st"
    and l: "getLatestVersion E i st (name pkg) = Inr latest"
    and isl: "isLatest_of E pkg latest"
    and old: "map_of (db st) (latest_version_key E (name pkg)) = Some (Version old)" "old \<noteq> []"
  shows "semverGt E (version pkg) old"
proof (cases "\<exists>c. lru st (name pkg) = Some c \<and> c \<noteq> []")
  case True
  then obtain c where c: "lru st (name pkg) = Some c" "c \<noteq> []" by blast
  with l have "latest = Some c" by (simp add: getLatestVersion_def truthy_def)
  with isl c have gt: "semverGt E (version pkg) c" by (simp add: isLatest_of_def)
  from inv c old have "c = old \<or> semverGt E c old" unfolding cache_ahead_def by blast
  with gt tr show ?thesis unfolding gt_transitive_def by blast
next
  case False
  then have "\<not> truthy (lru st (name pkg))"
    by (cases "lru st (name pkg)") (simp_all add: truthy_def)
  then have "getLatestVersion E i st (name pkg) =
    (case db_get i (db st) (''!latest-version!'' @ escape E (name pkg)) of
       Inl NotFound \<Rightarrow> Inr None
     | Inl err \<Rightarrow> Inl err
     | Inr (Version v) \<Rightarrow> Inr (Some v)
     | Inr _ \<Rightarrow> Inl Corrupt)"
    by (simp add: getLatestVersion_def)
  with l old(1) have "latest = Some old"
    by (auto simp: latest_version_key_def split: sum.splits dberr.splits val.splits
        dest: db_get_Some db_get_NotFound)
  with isl old(2) show ?thesis by (simp add: isLatest_of_def)
qed

text \<open>The effect of one store on the pointers and on the cache.\<close>

lemma store_effect:
  obtains (same) "lru (fst (store E i st pkg)) = lru st"
      "\<And>k. prefix ''!latest-version!'' k \<Longrightarrow>
         map_of (db (fst (store E i st pkg))) k = map_of (db st) k"
  | (latest) latest where "getLatestVersion E i st (name pkg) = Inr latest"
      "isLatest_of E pkg latest"
      "lru (fst (store E i st pkg)) = (lru st)(name pkg \<mapsto> version pkg)"
      "\<And>k. prefix ''!latest-version!'' k \<Longrightarrow> k \<noteq> latest_version_key E (name pkg) \<Longrightarrow>
         map_of (db (fst (store E i st pkg))) k = map_of (db st) k"
      "map_of (db (fst (store E i st pkg))) (latest_version_key E (name pkg))
         = map_of (db st) (latest_version_key E (name pkg)) \<or>
       map_of (db (fst (store E i st pkg))) (latest_version_key E (name pkg))
         = Some (Version (version pkg))"
proof (rule store_cases[of E i st pkg])
  fix err assume "store E i st pkg = (st, Done (Some err))"
  then show ?thesis by (intro same) simp_all
next
  fix e assume "store E i st pkg = (st, Thrown e)"
  then show ?thesis by (intro same) simp_all
next
  fix latest deps devs
  assume l: "getLatestVersion E i st (name pkg) = Inr latest"
    and d: "batchDependencies E pkg (dependencies pkg) ''dep'' (isLatest_of E pkg latest) = Inr deps"
    and v: "batchDependencies E pkg (devDependencies pkg) ''dev'' (isLatest_of E pkg latest) = Inr devs"
    and s: "store E i st pkg =
         (\<lparr>db = fst (db_batch i (db st)
                  (deps @ devs @ [Put (''!pkg!'' @ escape E (name pkg) @ ''@'' @ version pkg) (Manifest pkg)]
                    @ (if isLatest_of E pkg latest
                       then [Put (''!pkg-latest!'' @ escape E (name pkg)) (Manifest pkg),
                             Put (''!latest-version!'' @ escape E (name pkg)) (Version (version pkg))]
                       else []))),
            lru = (if isLatest_of E pkg latest then (lru st)(name pkg \<mapsto> version pkg) else lru st)\<rparr>,
          Done (snd (db_batch i (db st)
                  (deps @ devs @ [Put (''!pkg!'' @ escape E (name pkg) @ ''@'' @ version pkg) (Manifest pkg)]
                    @ (if isLatest_of E pkg latest
                       then [Put (''!pkg-latest!'' @ escape E (name pkg)) (Manifest pkg),
                             Put (''!latest-version!'' @ escape E (name pkg)) (Version (version pkg))]
                       else [])))))"
  let ?B = "deps @ devs @ [Put (''!pkg!'' @ escape E (name pkg) @ ''@'' @ version pkg) (Manifest pkg)]"
  let ?L = "[Put (''!pkg-latest!'' @ escape E (name pkg)) (Manifest pkg),
             Put (''!latest-version!'' @ escape E (name pkg)) (Version (version pkg))]"
  note free = store_batch_pointer_free[OF d v]
  show ?thesis
  proof (cases "isLatest_of E pkg latest")
    case False
    show ?thesis
    proof (rule same)
      from s False show "lru (fst (store E i st pkg)) = lru st" by simp
    next
      fix k assume "prefix ''!latest-version!'' k"
      then show "map_of (db (fst (store E i st pkg))) k = map_of (db st) k"
        using store_not_latest(3)[OF l False] pointer_is_latest by blast
    qed
  next
    case True
    with s have db': "db (fst (store E i st pkg)) = fst (db_batch i (db st) (?B @ ?L))"
      and lru': "lru (fst (store E i st pkg)) = (lru st)(name pkg \<mapsto> version pkg)"
      by simp_all
    show ?thesis
    proof (rule latest[OF l True lru'])
      fix k assume k: "prefix ''!latest-version!'' k" "k \<noteq> latest_version_key E (name pkg)"
      from free[OF k(1)] k have "k \<notin> op_key ` set (?B @ ?L)"
        by (auto simp: op_key_def latest_version_key_def)
      then show "map_of (db (fst (store E i st pkg))) k = map_of (db st) k"
        unfolding db' db_batch_def using fold_apply_op_other[of k "?B @ ?L" "db st"] by simp
    next
      have "map_of (fold apply_op (?B @ ?L) (db st)) (latest_version_key E (name pkg))
              = Some (Version (version pkg))"
        using fold_apply_op_last[of "''!latest-version!'' @ escape E (name pkg)" "[]"
            "?B @ [Put (''!pkg-latest!'' @ escape E (name pkg)) (Manifest pkg)]"
            "Version (version pkg)" "db st"]
        by (simp add: latest_version_key_def)
      then show "map_of (db (fst (store E i st pkg))) (latest_version_key E (name pkg))
         = map_of (db st) (latest_version_key E (name pkg)) \<or>
       map_of (db (fst (store E i st pkg))) (latest_version_key E (name pkg))
         = Some (Version (version pkg))"
        unfolding db' db_batch_def by simp
    qed
  qed
qed

lemma store_pointer_grows:
  assumes tr: "gt_transitive E" and inv: "cache_ahead E st"
  shows "pointer_grows E st (fst (store E i st pkg))"
proof (rule store_effect[of E i st pkg])
  assume "\<And>k. prefix ''!latest-version!'' k \<Longrightarrow>
         map_of (db (fst (store E i st pkg))) k = map_of (db st) k"
  then show ?thesis by (simp add: pointer_grows_def)
next
  fix latest
  assume l: "getLatestVersion E i st (name pkg) = Inr latest" and isl: "isLatest_of E pkg latest"
    and other: "\<And>k. prefix ''!latest-version!'' k \<Longrightarrow> k \<noteq> latest_version_key E (name pkg) \<Longrightarrow>
         map_of (db (fst (store E i st pkg))) k = map_of (db st) k"
    and this_one: "map_of (db (fst (store E i st pkg))) (latest_version_key E (name pkg))
         = map_of (db st) (latest_version_key E (name pkg)) \<or>
       map_of (db (fst (store E i st pkg))) (latest_version_key E (name pkg))
         = Some (Version (version pkg))"
  show ?thesis
    unfolding pointer_grows_def
  proof (intro allI impI)
    fix k old
    assume k: "prefix ''!latest-version!'' k" and o: "map_of (db st) k = Some (Version old)" "old \<noteq> []"
    show "map_of (db (fst (store E i st pkg))) k = Some (Version old) \<or>
          (\<exists>new. map_of (db (fst (store E i st pkg))) k = Some (Version new) \<and> semverGt E new old)"
    proof (cases "k = latest_version_key E (name pkg)")
      case False
      with other[OF k] o show ?thesis by simp
    next
      case True
      with o have "semverGt E (version pkg) old"
        using latest_is_newer[OF tr inv l isl] by simp
      with this_one True o show ?thesis by auto
    qed
  qed
qed

lemma store_cache_ahead:
  assumes inj: "inj (escape E)" and tr: "gt_transitive E" and inv: "cache_ahead E st"
  shows "cache_ahead E (fst (store E i st pkg))"
proof (rule store_effect[of E i st pkg])
  assume "lru (fst (store E i st pkg)) = lru st"
    and "\<And>k. prefix ''!latest-version!'' k \<Longrightarrow>
         map_of (db (fst (store E i st pkg))) k = map_of (db st) k"
  with inv show ?thesis
    by (simp add: cache_ahead_def latest_version_key_def)
next
  fix latest
  assume l: "getLatestVersion E i st (name pkg) = Inr latest" and isl: "isLatest_of E pkg latest"
    and lru': "lru (fst (store E i st pkg)) = (lru st)(name pkg \<mapsto> version pkg)"
    and other: "\<And>k. prefix ''!latest-version!'' k \<Longrightarrow> k \<noteq> latest_version_key E (name pkg) \<Longrightarrow>
         map_of (db (fst (store E i st pkg))) k = map_of (db st) k"
    and this_one: "map_of (db (fst (store E i st pkg))) (latest_version_key E (name pkg))
         = map_of (db st) (latest_version_key E (name pkg)) \<or>
       map_of (db (fst (store E i st pkg))) (latest_version_key E (name pkg))
         = Some (Version (version pkg))"
  show ?thesis
    unfolding cache_ahead_def
  proof (intro allI impI)
    fix n c old
    assume c: "lru (fst (store E i st pkg)) n = Some c" "c \<noteq> []"
      and o: "map_of (db (fst (store E i st pkg))) (latest_version_key E n) = Some (Version old)"
        "old \<noteq> []"
    show "c = old \<or> semverGt E c old"
    proof (cases "n = name pkg")
      case True
      with c lru' have cv: "c = version pkg" by simp
      from this_one show ?thesis
      proof
        assume "map_of (db (fst (store E i st pkg))) (latest_version_key E (name pkg))
                  = map_of (db st) (latest_version_key E (name pkg))"
        with o True have "map_of (db st) (latest_version_key E (name pkg)) = Some (Version old)"
          by simp
        from latest_is_newer[OF tr inv l isl this o(2)] cv show ?thesis by simp
      next
        assume "map_of (db (fst (store E i st pkg))) (latest_version_key E (name pkg))
                  = Some (Version (version pkg))"
        with o True cv show ?thesis by simp
      qed
    next
      case False
      with c lru' have c0: "lru st n = Some c" by simp
      from False latest_version_key_inj[OF inj]
      have "latest_version_key E n \<noteq> latest_version_key E (name pkg)" by blast
      with other[of "latest_version_key E n"] o
      have "map_of (db st) (latest_version_key E n) = Some (Version old)"
        by (simp add: latest_version_key_def)
      with inv c0 c(2) o(2) show ?thesis unfolding cache_ahead_def by blast
    qed
  qed
qed

lemma query_pointers:
  "prefix ''!latest-version!'' k \<Longrightarrow>
   map_of (db (fst (query E i st nm rangeString opt))) k = map_of (db st) k"
proof (rule ccontr)
  assume k: "prefix ''!latest-version!'' k"
    and "map_of (db (fst (query E i st nm rangeString opt))) k \<noteq> map_of (db st) k"
  from query_frame[OF this(2)]
  have "\<not> opt_all opt" "prefix (keyprefix_of opt @ escape E nm @ ''!'') k" by simp_all
  then have "prefix ''!index-latest!'' k"
    by (auto simp: keyprefix_of_def prefix_def)
  with k show False by (auto simp: prefix_def)
qed

lemma step_pointer_grows:
  assumes "gt_transitive E" "cache_ahead E st"
  shows "pointer_grows E st (step E st ev)"
proof (cases ev)
  case (Store i pkg)
  with store_pointer_grows[OF assms] show ?thesis by (simp add: step_def)
next
  case (Query i nm rangeString opt)
  then show ?thesis by (simp add: step_def pointer_grows_def query_pointers)
next
  case (Evict names)
  then show ?thesis by (simp add: step_def pointer_grows_def)
qed

lemma step_cache_ahead:
  assumes "inj (escape E)" "gt_transitive E" "cache_ahead E st"
  shows "cache_ahead E (step E st ev)"
proof (cases ev)
  case (Store i pkg)
  with store_cache_ahead[OF assms] show ?thesis by (simp add: step_def)
next
  case (Query i nm rangeString opt)
  with assms(3) show ?thesis
    by (simp add: step_def cache_ahead_def query_lru query_pointers latest_version_key_def)
next
  case (Evict names)
  with assms(3) show ?thesis
    by (auto simp: step_def cache_ahead_def split: if_splits)
qed

lemma run_pointers_grow:
  assumes "inj (escape E)" "gt_transitive E"
  shows "cache_ahead E st \<Longrightarrow> pointers_grow E st evs"
proof (induction evs arbitrary: st)
  case Nil
  then show ?case by simp
next
  case (Cons ev evs)
  from step_pointer_grows[OF assms(2) Cons.prems] Cons.IH[OF step_cache_ahead[OF assms Cons.prems]]
  show ?case by simp
qed

lemma store_writes_manifest:
  assumes "snd (store E i st pkg) = Done None"
  shows "map_of (db (fst (store E i st pkg))) (pkg_key E pkg) = Some (Manifest pkg)"
proof (rule store_cases[of E i st pkg])
  fix err assume "store E i st pkg = (st, Done (Some err))"
  with assms show ?thesis by simp
next
  fix e assume "store E i st pkg = (st, Thrown e)"
  with assms show ?thesis by simp
next
  fix latest and deps devs :: "op list"
  let ?B = "deps @ devs"
  let ?L = "(if isLatest_of E pkg latest
             then [Put (''!pkg-latest!'' @ escape E (name pkg)) (Manifest pkg),
                   Put (''!latest-version!'' @ escape E (name pkg)) (Version (version pkg))]
             else [])"
  assume s: "store E i st pkg =
         (\<lparr>db = fst (db_batch i (db st)
                  (deps @ devs @ [Put (''!pkg!'' @ escape E (name pkg) @ ''@'' @ version pkg) (Manifest pkg)]
                    @ (if isLatest_of E pkg latest
                       then [Put (''!pkg-latest!'' @ escape E (name pkg)) (Manifest pkg),
                             Put (''!latest-version!'' @ escape E (name pkg)) (Version (version pkg))]
                       else []))),
            lru = (if isLatest_of E pkg latest then (lru st)(name pkg \<mapsto> version pkg) else lru st)\<rparr>,
          Done (snd (db_batch i (db st)
                  (deps @ devs @ [Put (''!pkg!'' @ escape E (name pkg) @ ''@'' @ version pkg) (Manifest pkg)]
                    @ (if isLatest_of E pkg latest
                       then [Put (''!pkg-latest!'' @ escape E (name pkg)) (Manifest pkg),
                             Put (''!latest-version!'' @ escape E (name pkg)) (Version (version pkg))]
                       else [])))))"
  with assms have ok: "\<not> batch_fails i" by (auto simp: db_batch_def split: if_splits)
  have "pkg_key E pkg \<notin> op_key ` set ?L"
    by (auto simp: op_key_def pkg_key_def)
  from fold_apply_op_last[OF this, of ?B "Manifest pkg" "db st"] s ok show ?thesis
    by (simp add: db_batch_def pkg_key_def)
qed

subsection \<open>The concrete environment meets the writer's hypotheses\<close>

lemma hex_digit_inj: "a < 16 \<Longrightarrow> b < 16 \<Longrightarrow> hex_digit a = hex_digit b \<Longrightarrow> a = b"
proof -
  assume a: "a < 16" and b: "b < 16" and e: "hex_digit a = hex_digit b"
  have d: "distinct ''0123456789ABCDEF''" by simp
  have l: "length ''0123456789ABCDEF'' = 16" by simp
  from nth_eq_iff_index_eq[OF d, of a b] a b e l show ?thesis
    by (simp add: hex_digit_def)
qed

lemma of_char_bound: "of_char (c::char) < (256::nat)"
proof -
  have "of_char c = (of_char c :: nat) mod 256" by (simp only: of_char_mod_256)
  then show ?thesis by (metis mod_less_divisor zero_less_numeral)
qed

lemma escape_char_inj:
  assumes "escape_char a @ x = escape_char b @ y"
  shows "a = b \<and> x = y"
proof -
  have pct: "\<not> unreserved CHR ''%''" by (simp add: unreserved_def)
  consider (uu) "unreserved a" "unreserved b" | (un) "unreserved a" "\<not> unreserved b"
    | (nu) "\<not> unreserved a" "unreserved b" | (nn) "\<not> unreserved a" "\<not> unreserved b"
    by blast
  then show ?thesis
  proof cases
    case uu
    with assms show ?thesis by (simp add: escape_char_def)
  next
    case un
    with assms pct show ?thesis by (auto simp: escape_char_def)
  next
    case nu
    with assms pct show ?thesis by (auto simp: escape_char_def)
  next
    case nn
    with assms have h: "hex_digit (of_char a div 16) = hex_digit (of_char b div 16)"
      and l: "hex_digit (of_char a mod 16) = hex_digit (of_char b mod 16)" and xy: "x = y"
      by (simp_all add: escape_char_def)
    have "(of_char a :: nat) div 16 < 16" "(of_char b :: nat) div 16 < 16"
      using of_char_bound[of a] of_char_bound[of b] by arith+
    from hex_digit_inj[OF this h] have hi: "(of_char a :: nat) div 16 = of_char b div 16" .
    have "(of_char a :: nat) mod 16 < 16" "(of_char b :: nat) mod 16 < 16" by simp_all
    from hex_digit_inj[OF this l] have lo: "(of_char a :: nat) mod 16 = of_char b mod 16" .
    from hi lo have "(of_char a :: nat) = of_char b"
      by (metis div_mult_mod_eq)
    then have "a = b" by simp
    with xy show ?thesis by simp
  qed
qed

lemma escape_char_nonempty: "escape_char c \<noteq> []"
  by (simp add: escape_char_def)

lemma js_escape_inj: "js_escape a = js_escape b \<Longrightarrow> a = b"
proof (induction a arbitrary: b)
  case Nil
  then show ?case
    by (cases b) (simp_all add: js_escape_def escape_char_nonempty)
next
  case (Cons x xs)
  show ?case
  proof (cases b)
    case Nil
    with Cons.prems show ?thesis by (simp add: js_escape_def escape_char_nonempty)
  next
    case (Cons y ys)
    with Cons.prems have "escape_char x @ js_escape xs = escape_char y @ js_escape ys"
      by (simp add: js_escape_def)
    from escape_char_inj[OF this] Cons.IH[of ys] Cons show ?thesis by simp
  qed
qed

lemma node_escape_inj: "inj (escape node)"
  by (simp add: node_def inj_on_def js_escape_inj)

lemma node_gt_transitive: "gt_transitive node"
  unfolding gt_transitive_def semverGt_def
  by (auto simp: node_def numeric_cmp_def Let_def split: if_splits)

lemma node_parses_supported: "parses_supported node"
  unfolding parses_supported_def
  by (auto simp: node_def sample_Range_def supported_def cmpr_def split: if_splits)

lemma empty_cache_ahead: "cache_ahead E empty_state"
  by (simp add: cache_ahead_def empty_state_def)

subsection \<open>C5: the latest version only grows\<close>

text \<open>
  C5. Along every history of store calls (with queries and cache evictions between them,
  and batches that fail), a \<^verbatim>\<open>!latest-version!\<close> pointer that holds a version keeps it or
  is replaced by a version strictly greater under the comparison of \<open>semverGt\<close>. A store
  of a manifest whose version is not strictly greater than the current latest (the value
  \<open>_getLatestVersion\<close> returns) changes no key of the families \<^verbatim>\<open>!pkg-latest!\<close>,
  \<^verbatim>\<open>!latest-version!\<close>, \<^verbatim>\<open>!index-latest!\<close> and does not update the cache. The history
  starts with the cache ahead of the store (an empty cache is); the comparison is
  transitive, \<^verbatim>\<open>escape\<close> is injective, and versions are non-empty strings.
\<close>

theorem latest_monotone:
  assumes "inj (escape E)" "gt_transitive E" "cache_ahead E st"
  shows "pointers_grow E st evs \<and>
         (getLatestVersion E i s (name pkg) = Inr (Some l) \<and> l \<noteq> [] \<and> \<not> semverGt E (version pkg) l \<longrightarrow>
            lru (fst (store E i s pkg)) = lru s \<and>
            (\<forall>k. latest_family k \<longrightarrow> map_of (db (fst (store E i s pkg))) k = map_of (db s) k))"
proof (intro conjI impI allI)
  show "pointers_grow E st evs" by (rule run_pointers_grow[OF assms])
next
  assume a: "getLatestVersion E i s (name pkg) = Inr (Some l) \<and> l \<noteq> [] \<and> \<not> semverGt E (version pkg) l"
  then have n: "\<not> isLatest_of E pkg (Some l)" by (simp add: isLatest_of_def)
  from a have g: "getLatestVersion E i s (name pkg) = Inr (Some l)" by simp
  show "lru (fst (store E i s pkg)) = lru s" by (rule store_not_latest(1)[OF g n])
  fix k assume "latest_family k"
  then show "map_of (db (fst (store E i s pkg))) k = map_of (db s) k"
    by (rule store_not_latest(3)[OF g n])
qed

theorem latest_monotone_witness:
  "inj (escape node) \<and> gt_transitive node \<and> cache_ahead node empty_state \<and>
   pointers_grow node empty_state
     [Store reliable a100, Store reliable a200, Evict [''a''], Store reliable a100,
      Query reliable ''b'' ''1.5.0'' latest_only] \<and>
   map_of (db (run node empty_state
     [Store reliable a100, Store reliable a200, Evict [''a''], Store reliable a100,
      Query reliable ''b'' ''1.5.0'' latest_only])) ''!latest-version!a'' = Some (Version ''2.0.0'') \<and>
   getLatestVersion node reliable after_drop (name a100) = Inr (Some ''2.0.0'') \<and>
   \<not> semverGt node (version a100) ''2.0.0'' \<and>
   lru (fst (store node reliable after_drop a100)) = lru after_drop \<and>
   latest_family ''!index-latest!dep!b!a'' \<and>
   map_of (db (fst (store node reliable after_drop a100))) ''!index-latest!dep!b!a''
     = map_of (db after_drop) ''!index-latest!dep!b!a''"
proof -
  have h: "getLatestVersion node reliable after_drop (name a100) = Inr (Some ''2.0.0'')"
    "\<not> semverGt node (version a100) ''2.0.0''"
    "latest_family ''!index-latest!dep!b!a''"
    "map_of (db (run node empty_state
      [Store reliable a100, Store reliable a200, Evict [''a''], Store reliable a100,
       Query reliable ''b'' ''1.5.0'' latest_only])) ''!latest-version!a'' = Some (Version ''2.0.0'')"
    by code_simp+
  note t = latest_monotone[OF node_escape_inj node_gt_transitive empty_cache_ahead,
      where evs = "[Store reliable a100, Store reliable a200, Evict [''a''], Store reliable a100,
        Query reliable ''b'' ''1.5.0'' latest_only]"
      and i = reliable and s = after_drop and pkg = a100 and l = "''2.0.0''"]
  from t h show ?thesis
    using node_escape_inj node_gt_transitive empty_cache_ahead[of node] by simp
qed

subsection \<open>C10: storing the current latest version again\<close>

text \<open>
  C10. When the version of the manifest is exactly the current latest version (the value
  \<open>_getLatestVersion\<close> returns, a non-empty string that the comparison does not rank above
  itself), the store is not a latest one: the cache is unchanged, every key of
  the families \<^verbatim>\<open>!pkg-latest!\<close>, \<^verbatim>\<open>!latest-version!\<close> and \<^verbatim>\<open>!index-latest!\<close> keeps its value, and
  the only keys that change are \<^verbatim>\<open>!pkg!N@V\<close> and keys \<^verbatim>\<open>!index!K!D!N@V\<close>; a store that
  succeeds does write the manifest at \<^verbatim>\<open>!pkg!N@V\<close>.
\<close>

theorem store_current_latest_again:
  assumes "getLatestVersion E i st (name pkg) = Inr (Some (version pkg))"
    and "version pkg \<noteq> []"
    and "cmp E (version pkg) (version pkg) \<noteq> 1"
  shows "lru (fst (store E i st pkg)) = lru st \<and>
         (\<forall>k. latest_family k \<longrightarrow> map_of (db (fst (store E i st pkg))) k = map_of (db st) k) \<and>
         (\<forall>k. map_of (db (fst (store E i st pkg))) k \<noteq> map_of (db st) k \<longrightarrow>
            k = pkg_key E pkg \<or> (\<exists>d. k = index_key E ''dep'' d pkg) \<or>
            (\<exists>d. k = index_key E ''dev'' d pkg)) \<and>
         (snd (store E i st pkg) = Done None \<longrightarrow>
            map_of (db (fst (store E i st pkg))) (pkg_key E pkg) = Some (Manifest pkg))"
proof -
  from assms(2,3) have n: "\<not> isLatest_of E pkg (Some (version pkg))"
    by (simp add: isLatest_of_def semverGt_def)
  note f = store_not_latest[OF assms(1) n]
  show ?thesis
    using f(1) f(2) f(3) store_writes_manifest[of E i st pkg] by blast
qed

theorem store_current_latest_again_witness:
  "getLatestVersion node reliable (fst (store node reliable empty_state a100)) (name a100)
     = Inr (Some (version a100)) \<and>
   version a100 \<noteq> [] \<and>
   cmp node (version a100) (version a100) \<noteq> 1 \<and>
   lru (fst (store node reliable (fst (store node reliable empty_state a100)) a100))
     = lru (fst (store node reliable empty_state a100)) \<and>
   snd (store node reliable (fst (store node reliable empty_state a100)) a100) = Done None \<and>
   map_of (db (fst (store node reliable (fst (store node reliable empty_state a100)) a100)))
       (pkg_key node a100) = Some (Manifest a100)"
proof -
  have h: "getLatestVersion node reliable (fst (store node reliable empty_state a100)) (name a100)
     = Inr (Some (version a100))"
    "version a100 \<noteq> []"
    "cmp node (version a100) (version a100) \<noteq> 1"
    "snd (store node reliable (fst (store node reliable empty_state a100)) a100) = Done None"
    by code_simp+
  from store_current_latest_again[OF h(1,2,3)] h show ?thesis by simp
qed

subsection \<open>The index entries of a store\<close>

lemma push_comparator_supported: "supported c \<Longrightarrow> \<exists>s'. push_comparator P s c = Inr s'"
  by (cases "operator c") (simp_all add: push_comparator_def supported_def)

lemma encode_comparators_supported:
  "list_all supported cs \<Longrightarrow> \<exists>s'. encode_comparators P s cs = Inr s'"
proof (induction cs arbitrary: s)
  case Nil
  then show ?case by simp
next
  case (Cons c cs)
  then obtain s1 where "push_comparator P s c = Inr s1"
    using push_comparator_supported[of c P s] by auto
  with Cons show ?case by simp
qed

lemma encode_sets_supported:
  "list_all (list_all supported) sets \<Longrightarrow> \<exists>enc. encode_sets P sets = Inr enc"
proof (induction sets)
  case Nil
  then show ?case by simp
next
  case (Cons cs sets)
  then obtain s enc where "encode_comparators P ([], []) cs = Inr s" "encode_sets P sets = Inr enc"
    using encode_comparators_supported[of cs P "([], [])"] by auto
  then show ?case by simp
qed

lemma dependency_ops_total:
  assumes "parses_supported E"
  shows "\<exists>ops. dependency_ops E pkg deptype isLatest d = Inr ops"
proof (cases "semver_Range E (snd d)")
  case None
  then show ?thesis by (simp add: dependency_ops_def)
next
  case (Some rg)
  with assms have "list_all (list_all supported) (range_set rg)"
    unfolding parses_supported_def by blast
  from encode_sets_supported[OF this, of "lexi_pack E"] Some show ?thesis
    by (auto simp: dependency_ops_def)
qed

lemma batch_each_total:
  assumes "parses_supported E"
  shows "\<exists>batch. batch_each E pkg deptype isLatest ds = Inr batch"
proof (induction ds)
  case Nil
  then show ?case by simp
next
  case (Cons d ds)
  with dependency_ops_total[OF assms, of pkg deptype isLatest d] show ?case by auto
qed

lemma dependency_ops_set:
  assumes "dependency_ops E pkg deptype isLatest d = Inr ops"
  shows "set ops = dep_puts E pkg isLatest deptype d"
  using assms unfolding dependency_ops_def index_key_def index_latest_key_def dep_puts_def
  by (auto split: option.splits sum.splits if_splits)

lemma batch_each_set:
  "batch_each E pkg deptype isLatest ds = Inr batch \<Longrightarrow>
   set batch = (\<Union>d\<in>set ds. dep_puts E pkg isLatest deptype d)"
proof (induction ds arbitrary: batch)
  case Nil
  then show ?case by simp
next
  case (Cons d ds)
  from Cons.prems obtain ops rest where o: "dependency_ops E pkg deptype isLatest d = Inr ops"
    and r: "batch_each E pkg deptype isLatest ds = Inr rest" and b: "batch = ops @ rest"
    by (auto split: sum.splits)
  show ?case
    unfolding b set_append dependency_ops_set[OF o] Cons.IH[OF r] by simp
qed

lemma batchDependencies_dep:
  "batchDependencies E pkg (dependencies pkg) ''dep'' isLatest = Inr batch \<Longrightarrow>
   set batch = index_puts E pkg isLatest ''dep''"
  unfolding batchDependencies_def index_puts_def declared_def
  by (drule batch_each_set) simp

lemma batchDependencies_dev:
  "batchDependencies E pkg (devDependencies pkg) ''dev'' isLatest = Inr batch \<Longrightarrow>
   set batch = index_puts E pkg isLatest ''dev''"
  unfolding batchDependencies_def index_puts_def declared_def
  by (drule batch_each_set) simp

lemma batchDependencies_total:
  "parses_supported E \<Longrightarrow> \<exists>batch. batchDependencies E pkg deps deptype isLatest = Inr batch"
  unfolding batchDependencies_def by (rule batch_each_total)
lemma fold_apply_op_unique:
  "Put k v \<in> set batch \<Longrightarrow> (\<forall>x\<in>set batch. op_key x = k \<longrightarrow> x = Put k v) \<Longrightarrow>
   map_of (fold apply_op batch kv) k = Some v"
proof (induction batch arbitrary: kv)
  case Nil
  then show ?case by simp
next
  case (Cons x batch)
  show ?case
  proof (cases "k \<in> op_key ` set batch")
    case True
    then obtain y where "y \<in> set batch" "op_key y = k" by auto
    with Cons.prems(2) have "Put k v \<in> set batch" by auto
    from Cons.IH[OF this] Cons.prems(2) show ?thesis by simp
  next
    case False
    then have "Put k v \<notin> set batch" by (force simp: op_key_def)
    with Cons.prems(1) have "x = Put k v" by simp
    then have a: "apply_op x kv = AList.update k v kv" by (simp add: apply_op_def)
    have "map_of (fold apply_op batch (AList.update k v kv)) k = map_of (AList.update k v kv) k"
      using False by (rule fold_apply_op_other)
    then show ?thesis
      by (simp add: a update_conv')
  qed
qed

lemma index_key_eq:
  "index_key E deptype d pkg = index_key E deptype d' pkg \<Longrightarrow> escape E d = escape E d'"
  by (simp add: index_key_def)

lemma index_latest_key_eq:
  "index_latest_key E deptype d nm = index_latest_key E deptype d' nm \<Longrightarrow> escape E d = escape E d'"
  by (simp add: index_latest_key_def)

lemma index_key_kinds:
  "index_key E ''dep'' d pkg \<noteq> index_key E ''dev'' d' pkg"
  "index_latest_key E ''dep'' d nm \<noteq> index_latest_key E ''dev'' d' nm"
  "index_key E deptype d pkg \<noteq> index_latest_key E deptype' d' nm"
  by (simp_all add: index_key_def index_latest_key_def)

lemma index_key_others:
  "index_key E deptype d pkg \<noteq> pkg_key E p" "index_key E deptype d pkg \<noteq> pkg_latest_key E nm"
  "index_key E deptype d pkg \<noteq> latest_version_key E nm"
  "index_latest_key E deptype d n \<noteq> pkg_key E p" "index_latest_key E deptype d n \<noteq> pkg_latest_key E nm"
  "index_latest_key E deptype d n \<noteq> latest_version_key E nm"
  "pkg_key E p \<noteq> pkg_latest_key E nm" "pkg_key E p \<noteq> latest_version_key E nm"
  "pkg_latest_key E n \<noteq> latest_version_key E nm"
  by (simp_all add: index_key_def index_latest_key_def pkg_key_def pkg_latest_key_def
      latest_version_key_def)

lemma index_puts_origin:
  assumes "x \<in> index_puts E pkg isLatest deptype"
  shows "\<exists>d rg enc. d \<in> set (declared deptype pkg) \<and> semver_Range E (snd d) = Some rg \<and>
    encode_sets (lexi_pack E) (range_set rg) = Inr enc \<and>
    (x = Put (index_key E deptype (fst d) pkg) (Sets enc) \<or>
     isLatest \<and> x = Put (index_latest_key E deptype (fst d) (name pkg)) (Latest (version pkg) enc))"
  using assms unfolding index_puts_def dep_puts_def by blast

lemma declared_unique:
  assumes "inj (escape E)" "distinct (map fst (declared deptype pkg))"
    and "d \<in> set (declared deptype pkg)" "d' \<in> set (declared deptype pkg)"
    and "escape E (fst d) = escape E (fst d')"
  shows "d = d'"
proof -
  from assms(1,5) have "fst d = fst d'" by (simp add: inj_eq)
  with assms(2,3,4) show ?thesis
    by (metis eq_key_imp_eq_value prod.collapse)
qed

lemma index_puts_unique:
  assumes inj: "inj (escape E)" and dist: "distinct (map fst (declared deptype pkg))"
    and x: "x \<in> index_puts E pkg isLatest deptype" and y: "y \<in> index_puts E pkg isLatest deptype"
    and k: "op_key x = op_key y"
  shows "x = y"
proof -
  from x obtain d rg enc where d: "d \<in> set (declared deptype pkg)" "semver_Range E (snd d) = Some rg"
    "encode_sets (lexi_pack E) (range_set rg) = Inr enc"
    "x = Put (index_key E deptype (fst d) pkg) (Sets enc) \<or>
     isLatest \<and> x = Put (index_latest_key E deptype (fst d) (name pkg)) (Latest (version pkg) enc)"
    using index_puts_origin by blast
  from y obtain d' rg' enc' where d': "d' \<in> set (declared deptype pkg)"
    "semver_Range E (snd d') = Some rg'"
    "encode_sets (lexi_pack E) (range_set rg') = Inr enc'"
    "y = Put (index_key E deptype (fst d') pkg) (Sets enc') \<or>
     isLatest \<and> y = Put (index_latest_key E deptype (fst d') (name pkg)) (Latest (version pkg) enc')"
    using index_puts_origin by blast
  from d(4) d'(4) k have e: "escape E (fst d) = escape E (fst d')"
    and same: "(x = Put (index_key E deptype (fst d) pkg) (Sets enc) \<and>
                y = Put (index_key E deptype (fst d') pkg) (Sets enc')) \<or>
               (x = Put (index_latest_key E deptype (fst d) (name pkg)) (Latest (version pkg) enc) \<and>
                y = Put (index_latest_key E deptype (fst d') (name pkg)) (Latest (version pkg) enc'))"
    using index_key_eq[of E deptype "fst d" pkg "fst d'"]
      index_latest_key_eq[of E deptype "fst d" "name pkg" "fst d'"]
      index_key_kinds(3)[of E deptype "fst d" pkg deptype "fst d'" "name pkg"]
      index_key_kinds(3)[of E deptype "fst d'" pkg deptype "fst d" "name pkg"]
    by (auto simp: op_key_def)
  from declared_unique[OF inj dist d(1) d'(1) e] have "d = d'" .
  with d(2,3) d'(2,3) have "enc = enc'" by simp
  with same \<open>d = d'\<close> show ?thesis by auto
qed

lemma index_puts_kinds:
  assumes "x \<in> index_puts E pkg isLatest ''dep''" "y \<in> index_puts E pkg isLatest ''dev''"
  shows "op_key x \<noteq> op_key y"
proof -
  from assms(1) obtain d :: "string \<times> string" and enc where
    x: "x = Put (index_key E ''dep'' (fst d) pkg) (Sets enc) \<or>
     isLatest \<and> x = Put (index_latest_key E ''dep'' (fst d) (name pkg)) (Latest (version pkg) enc)"
    using index_puts_origin by blast
  from assms(2) obtain d' :: "string \<times> string" and enc' where
    y: "y = Put (index_key E ''dev'' (fst d') pkg) (Sets enc') \<or>
     isLatest \<and> y = Put (index_latest_key E ''dev'' (fst d') (name pkg)) (Latest (version pkg) enc')"
    using index_puts_origin by blast
  from x y show ?thesis
    using index_key_kinds(1)[of E "fst d" pkg "fst d'"]
      index_key_kinds(2)[of E "fst d" "name pkg" "fst d'"]
      index_key_kinds(3)[of E "''dep''" "fst d" pkg "''dev''" "fst d'" "name pkg"]
      index_key_kinds(3)[of E "''dev''" "fst d'" pkg "''dep''" "fst d" "name pkg"]
    by (auto simp: op_key_def)
qed

lemma index_puts_not_other:
  assumes "x \<in> index_puts E pkg isLatest deptype"
  shows "op_key x \<noteq> pkg_key E p \<and> op_key x \<noteq> pkg_latest_key E nm \<and>
         op_key x \<noteq> latest_version_key E nm"
proof -
  from assms obtain d :: "string \<times> string" and enc where
    "x = Put (index_key E deptype (fst d) pkg) (Sets enc) \<or>
     isLatest \<and> x = Put (index_latest_key E deptype (fst d) (name pkg)) (Latest (version pkg) enc)"
    using index_puts_origin by blast
  then show ?thesis
    by (auto simp: op_key_def index_key_others)
qed

text \<open>A dependency whose range does not parse contributes no entry.\<close>

lemma unparseable_not_in_index_puts:
  assumes inj: "inj (escape E)" and dist: "distinct (map fst (declared deptype pkg))"
    and d: "(d, r) \<in> set (declared deptype pkg)" "semver_Range E r = None"
    and x: "x \<in> index_puts E pkg isLatest deptype"
  shows "op_key x \<noteq> index_key E deptype d pkg \<and> op_key x \<noteq> index_latest_key E deptype d (name pkg)"
proof -
  from x obtain d1 rg enc where d1: "d1 \<in> set (declared deptype pkg)"
    "semver_Range E (snd d1) = Some rg"
    "x = Put (index_key E deptype (fst d1) pkg) (Sets enc) \<or>
     isLatest \<and> x = Put (index_latest_key E deptype (fst d1) (name pkg)) (Latest (version pkg) enc)"
    using index_puts_origin by blast
  have "escape E (fst d1) \<noteq> escape E d"
  proof
    assume "escape E (fst d1) = escape E d"
    with declared_unique[OF inj dist d1(1) d(1)] have "d1 = (d, r)" by simp
    with d1(2) d(2) show False by simp
  qed
  with d1(3) show ?thesis
    using index_key_eq[of E deptype "fst d1" pkg d]
      index_latest_key_eq[of E deptype "fst d1" "name pkg" d]
      index_key_kinds(3)[of E deptype "fst d1" pkg deptype d "name pkg"]
      index_key_kinds(3)[of E deptype d pkg deptype "fst d1" "name pkg"]
    by (auto simp: op_key_def)
qed
lemma index_puts_other_kind:
  "x \<in> index_puts E pkg isLatest ''dep'' \<Longrightarrow>
     op_key x \<noteq> index_key E ''dev'' d pkg \<and> op_key x \<noteq> index_latest_key E ''dev'' d (name pkg)"
  "x \<in> index_puts E pkg isLatest ''dev'' \<Longrightarrow>
     op_key x \<noteq> index_key E ''dep'' d pkg \<and> op_key x \<noteq> index_latest_key E ''dep'' d (name pkg)"
proof -
  assume "x \<in> index_puts E pkg isLatest ''dep''"
  then obtain d1 :: "string \<times> string" and enc where
    "x = Put (index_key E ''dep'' (fst d1) pkg) (Sets enc) \<or>
     isLatest \<and> x = Put (index_latest_key E ''dep'' (fst d1) (name pkg)) (Latest (version pkg) enc)"
    using index_puts_origin by blast
  then show "op_key x \<noteq> index_key E ''dev'' d pkg \<and> op_key x \<noteq> index_latest_key E ''dev'' d (name pkg)"
    using index_key_kinds(3)[of E "''dev''" d pkg "''dep''" "fst d1" "name pkg"]
    by (auto simp: op_key_def index_key_kinds index_key_kinds[THEN not_sym])
next
  assume "x \<in> index_puts E pkg isLatest ''dev''"
  then obtain d1 :: "string \<times> string" and enc where
    "x = Put (index_key E ''dev'' (fst d1) pkg) (Sets enc) \<or>
     isLatest \<and> x = Put (index_latest_key E ''dev'' (fst d1) (name pkg)) (Latest (version pkg) enc)"
    using index_puts_origin by blast
  then show "op_key x \<noteq> index_key E ''dep'' d pkg \<and> op_key x \<noteq> index_latest_key E ''dep'' d (name pkg)"
    using index_key_kinds(1)[of E d pkg "fst d1"] index_key_kinds(2)[of E d "name pkg" "fst d1"]
      index_key_kinds(3)[of E "''dep''" d pkg "''dev''" "fst d1" "name pkg"]
    by (auto simp: op_key_def index_key_kinds index_key_kinds[THEN not_sym])
qed

subsection \<open>C7: a dependency whose range does not parse\<close>

text \<open>
  C7. A manifest has a dependency \<open>d\<close> (of kind \<open>K\<close>) whose range string does not parse. When
  the read of the latest version and the batch commit do not fail, the store succeeds:
  the manifest is at \<^verbatim>\<open>!pkg!N@V\<close> and, if it is the latest, at \<^verbatim>\<open>!pkg-latest!N\<close> with
  \<^verbatim>\<open>!latest-version!N = V\<close>. The keys \<^verbatim>\<open>!index!K!d!N@V\<close> and \<^verbatim>\<open>!index-latest!K!d!N\<close> of the
  unparseable dependency hold what they held before (no entry is created). Every
  dependency of the manifest whose range parses is indexed: its \<^verbatim>\<open>!index!\<close> key holds the
  encoded range, and so does its \<^verbatim>\<open>!index-latest!\<close> key if the manifest is the latest.
  (The parser yields the six operators only, \<^verbatim>\<open>escape\<close> is injective, and the names in a
  dependency object are distinct.)
\<close>

theorem unparseable_range_skipped:
  assumes sup: "parses_supported E" and inj: "inj (escape E)"
    and get: "getLatestVersion E i st (name pkg) = Inr latest" and io: "\<not> batch_fails i"
    and dist: "distinct (map fst (declared ''dep'' pkg))" "distinct (map fst (declared ''dev'' pkg))"
    and K: "K = ''dep'' \<or> K = ''dev''"
    and d: "(d, r) \<in> set (declared K pkg)" "semver_Range E r = None"
  shows "snd (store E i st pkg) = Done None \<and>
         map_of (db (fst (store E i st pkg))) (pkg_key E pkg) = Some (Manifest pkg) \<and>
         (isLatest_of E pkg latest \<longrightarrow>
            map_of (db (fst (store E i st pkg))) (pkg_latest_key E (name pkg)) = Some (Manifest pkg) \<and>
            map_of (db (fst (store E i st pkg))) (latest_version_key E (name pkg))
              = Some (Version (version pkg))) \<and>
         map_of (db (fst (store E i st pkg))) (index_key E K d pkg)
           = map_of (db st) (index_key E K d pkg) \<and>
         map_of (db (fst (store E i st pkg))) (index_latest_key E K d (name pkg))
           = map_of (db st) (index_latest_key E K d (name pkg)) \<and>
         (\<forall>K' d' r' rg. (K' = ''dep'' \<or> K' = ''dev'') \<and> (d', r') \<in> set (declared K' pkg) \<and>
              semver_Range E r' = Some rg \<longrightarrow>
            (\<exists>enc. encode_sets (lexi_pack E) (range_set rg) = Inr enc \<and>
               map_of (db (fst (store E i st pkg))) (index_key E K' d' pkg) = Some (Sets enc) \<and>
               (isLatest_of E pkg latest \<longrightarrow>
                  map_of (db (fst (store E i st pkg))) (index_latest_key E K' d' (name pkg))
                    = Some (Latest (version pkg) enc))))"
proof -
  define isL where "isL = isLatest_of E pkg latest"
  obtain deps where deps: "batchDependencies E pkg (dependencies pkg) ''dep'' isL = Inr deps"
    using batchDependencies_total[OF sup] by blast
  obtain devs where devs: "batchDependencies E pkg (devDependencies pkg) ''dev'' isL = Inr devs"
    using batchDependencies_total[OF sup] by blast
  define L where "L = (if isL then [Put (pkg_latest_key E (name pkg)) (Manifest pkg),
      Put (latest_version_key E (name pkg)) (Version (version pkg))] else [])"
  define B where "B = deps @ devs @ [Put (pkg_key E pkg) (Manifest pkg)] @ L"
  have res: "snd (store E i st pkg) = Done None"
    and db': "db (fst (store E i st pkg)) = fold apply_op B (db st)"
    using get deps devs io
    by (simp_all add: store_def Let_def db_batch_def B_def L_def isL_def[symmetric] pkg_key_def
        pkg_latest_key_def latest_version_key_def)
  have setB: "set B = index_puts E pkg isL ''dep'' \<union> index_puts E pkg isL ''dev''
                \<union> {Put (pkg_key E pkg) (Manifest pkg)} \<union> set L"
    unfolding B_def set_append batchDependencies_dep[OF deps] batchDependencies_dev[OF devs]
    by auto
  have Lkeys: "\<And>x. x \<in> set L \<Longrightarrow>
      isL \<and> (x = Put (pkg_latest_key E (name pkg)) (Manifest pkg) \<or>
             x = Put (latest_version_key E (name pkg)) (Version (version pkg)))"
    by (auto simp: L_def split: if_splits)
  have dist': "\<And>K'. K' = ''dep'' \<or> K' = ''dev'' \<Longrightarrow> distinct (map fst (declared K' pkg))"
    using dist by auto
  have index_val: "map_of (fold apply_op B (db st)) k = Some v"
    if K': "K' = ''dep'' \<or> K' = ''dev''" and y: "Put k v \<in> index_puts E pkg isL K'" for K' k v
  proof (rule fold_apply_op_unique)
    from y K' setB show "Put k v \<in> set B" by auto
    show "\<forall>x\<in>set B. op_key x = k \<longrightarrow> x = Put k v"
    proof (intro ballI impI)
      fix x assume x: "x \<in> set B" and k: "op_key x = k"
      then have kk: "op_key x = op_key (Put k v)" by (simp add: op_key_def)
      from x setB consider "x \<in> index_puts E pkg isL ''dep''" | "x \<in> index_puts E pkg isL ''dev''"
        | "x = Put (pkg_key E pkg) (Manifest pkg)" | "x \<in> set L"
        by auto
      then show "x = Put k v"
      proof cases
        case 1
        from K' show ?thesis
        proof
          assume "K' = ''dep''"
          with index_puts_unique[OF inj dist(1) 1 _ kk] y show ?thesis by simp
        next
          assume "K' = ''dev''"
          with index_puts_kinds[OF 1, of "Put k v"] y kk show ?thesis by simp
        qed
      next
        case 2
        from K' show ?thesis
        proof
          assume "K' = ''dep''"
          with index_puts_kinds[of "Put k v" E pkg isL x] 2 y kk show ?thesis by simp
        next
          assume "K' = ''dev''"
          with index_puts_unique[OF inj dist(2) 2 _ kk] y show ?thesis by simp
        qed
      next
        case 3
        with index_puts_not_other[OF y, of pkg "name pkg"] kk show ?thesis
          by (simp add: op_key_def)
      next
        case 4
        from Lkeys[OF 4] index_puts_not_other[OF y, of pkg "name pkg"] kk show ?thesis
          by (auto simp: op_key_def)
      qed
    qed
  qed
  have pkg_val: "map_of (fold apply_op B (db st)) (pkg_key E pkg) = Some (Manifest pkg)"
  proof (rule fold_apply_op_unique)
    from setB show "Put (pkg_key E pkg) (Manifest pkg) \<in> set B" by simp
    show "\<forall>x\<in>set B. op_key x = pkg_key E pkg \<longrightarrow> x = Put (pkg_key E pkg) (Manifest pkg)"
    proof (intro ballI impI)
      fix x assume x: "x \<in> set B" and k: "op_key x = pkg_key E pkg"
      from x setB consider "x \<in> index_puts E pkg isL ''dep''" | "x \<in> index_puts E pkg isL ''dev''"
        | "x = Put (pkg_key E pkg) (Manifest pkg)" | "x \<in> set L"
        by auto
      then show "x = Put (pkg_key E pkg) (Manifest pkg)"
      proof cases
        case 1
        with index_puts_not_other[OF 1, of pkg "name pkg"] k show ?thesis by simp
      next
        case 2
        with index_puts_not_other[OF 2, of pkg "name pkg"] k show ?thesis by simp
      next
        case 3
        then show ?thesis .
      next
        case 4
        from Lkeys[OF 4] k show ?thesis by (auto simp: op_key_def index_key_others index_key_others[THEN not_sym])
      qed
    qed
  qed
  have latest_val: "map_of (fold apply_op B (db st)) k = Some v"
    if isL and kv: "(k, v) = (pkg_latest_key E (name pkg), Manifest pkg) \<or>
                    (k, v) = (latest_version_key E (name pkg), Version (version pkg))" for k v
  proof (rule fold_apply_op_unique)
    from setB \<open>isL\<close> kv show "Put k v \<in> set B" by (auto simp: L_def)
    show "\<forall>x\<in>set B. op_key x = k \<longrightarrow> x = Put k v"
    proof (intro ballI impI)
      fix x assume x: "x \<in> set B" and k: "op_key x = k"
      from x setB consider "x \<in> index_puts E pkg isL ''dep''" | "x \<in> index_puts E pkg isL ''dev''"
        | "x = Put (pkg_key E pkg) (Manifest pkg)" | "x \<in> set L"
        by auto
      then show "x = Put k v"
      proof cases
        case 1
        with index_puts_not_other[OF 1, of pkg "name pkg"] k kv show ?thesis by auto
      next
        case 2
        with index_puts_not_other[OF 2, of pkg "name pkg"] k kv show ?thesis by auto
      next
        case 3
        with k kv show ?thesis by (auto simp: op_key_def index_key_others index_key_others[THEN not_sym])
      next
        case 4
        from Lkeys[OF 4] k kv show ?thesis by (auto simp: op_key_def index_key_others index_key_others[THEN not_sym])
      qed
    qed
  qed
  have untouched: "map_of (fold apply_op B (db st)) k = map_of (db st) k"
    if k: "k = index_key E K d pkg \<or> k = index_latest_key E K d (name pkg)" for k
  proof (rule fold_apply_op_other, rule notI)
    assume "k \<in> op_key ` set B"
    then obtain x where x: "x \<in> set B" and kx: "op_key x = k" by auto
    from x setB consider "x \<in> index_puts E pkg isL ''dep''" | "x \<in> index_puts E pkg isL ''dev''"
      | "x = Put (pkg_key E pkg) (Manifest pkg)" | "x \<in> set L"
      by auto
    then show False
    proof cases
      case 1
      from K show False
      proof
        assume "K = ''dep''"
        with unparseable_not_in_index_puts[OF inj dist(1) _ d(2) 1, of d] d(1) k kx show False by auto
      next
        assume "K = ''dev''"
        with index_puts_other_kind(1)[OF 1, of d] k kx show False by auto
      qed
    next
      case 2
      from K show False
      proof
        assume "K = ''dep''"
        with index_puts_other_kind(2)[OF 2, of d] k kx show False by auto
      next
        assume "K = ''dev''"
        with unparseable_not_in_index_puts[OF inj dist(2) _ d(2) 2, of d] d(1) k kx show False by auto
      qed
    next
      case 3
      with k kx show False by (auto simp: op_key_def index_key_others index_key_others[THEN not_sym])
    next
      case 4
      from Lkeys[OF 4] k kx show False by (auto simp: op_key_def index_key_others index_key_others[THEN not_sym])
    qed
  qed
  have parsed: "\<exists>enc. encode_sets (lexi_pack E) (range_set rg) = Inr enc \<and>
               map_of (fold apply_op B (db st)) (index_key E K' d' pkg) = Some (Sets enc) \<and>
               (isL \<longrightarrow> map_of (fold apply_op B (db st)) (index_latest_key E K' d' (name pkg))
                    = Some (Latest (version pkg) enc))"
    if K': "K' = ''dep'' \<or> K' = ''dev''" and d': "(d', r') \<in> set (declared K' pkg)"
      and rg: "semver_Range E r' = Some rg" for K' d' r' rg
  proof -
    from sup rg have "list_all (list_all supported) (range_set rg)"
      unfolding parses_supported_def by blast
    from encode_sets_supported[OF this] obtain enc
      where enc: "encode_sets (lexi_pack E) (range_set rg) = Inr enc" by blast
    from d' rg enc have "Put (index_key E K' d' pkg) (Sets enc) \<in> index_puts E pkg isL K'"
      unfolding index_puts_def dep_puts_def by force
    from index_val[OF K' this] have 1: "map_of (fold apply_op B (db st)) (index_key E K' d' pkg) = Some (Sets enc)" .
    have 2: "map_of (fold apply_op B (db st)) (index_latest_key E K' d' (name pkg))
                    = Some (Latest (version pkg) enc)" if isL
    proof -
      from d' rg enc \<open>isL\<close>
      have "Put (index_latest_key E K' d' (name pkg)) (Latest (version pkg) enc) \<in> index_puts E pkg isL K'"
        unfolding index_puts_def dep_puts_def by force
      from index_val[OF K' this] show ?thesis .
    qed
    from enc 1 2 show ?thesis by blast
  qed
  show ?thesis
    unfolding db' isL_def[symmetric]
    using res pkg_val latest_val untouched parsed by auto
qed

theorem unparseable_range_skipped_witness:
  "parses_supported node \<and> inj (escape node) \<and>
   getLatestVersion node reliable empty_state (name c100) = Inr None \<and>
   \<not> batch_fails reliable \<and>
   distinct (map fst (declared ''dep'' c100)) \<and> distinct (map fst (declared ''dev'' c100)) \<and>
   (''d'', ''not-a-range'') \<in> set (declared ''dep'' c100) \<and>
   semver_Range node ''not-a-range'' = None \<and>
   (''b'', ''<=1.2.3'') \<in> set (declared ''dep'' c100) \<and>
   snd (store node reliable empty_state c100) = Done None \<and>
   map_of (db (fst (store node reliable empty_state c100))) (pkg_key node c100) = Some (Manifest c100) \<and>
   map_of (db (fst (store node reliable empty_state c100))) (latest_version_key node (name c100))
     = Some (Version (version c100)) \<and>
   map_of (db (fst (store node reliable empty_state c100))) (index_key node ''dep'' ''d'' c100)
     = map_of (db empty_state) (index_key node ''dep'' ''d'' c100) \<and>
   map_of (db (fst (store node reliable empty_state c100))) (index_latest_key node ''dep'' ''d'' (name c100))
     = map_of (db empty_state) (index_latest_key node ''dep'' ''d'' (name c100)) \<and>
   map_of (db (fst (store node reliable empty_state c100))) (index_key node ''dep'' ''b'' c100)
     = Some (Sets [([], [''f0!ff0!fff0''])])"
proof -
  have h: "getLatestVersion node reliable empty_state (name c100) = Inr None"
    "\<not> batch_fails reliable"
    "distinct (map fst (declared ''dep'' c100))" "distinct (map fst (declared ''dev'' c100))"
    "(''d'', ''not-a-range'') \<in> set (declared ''dep'' c100)"
    "semver_Range node ''not-a-range'' = None"
    by code_simp+
  have b: "(''b'', ''<=1.2.3'') \<in> set (declared ''dep'' c100)"
    "semver_Range node ''<=1.2.3'' = Some \<lparr>range_set = [[cmpr Le (sv 1 2 3)]], range_str = ''<=1.2.3''\<rparr>"
    "encode_sets (lexi_pack node) [[cmpr Le (sv 1 2 3)]] = Inr [([], [''f0!ff0!fff0''])]"
    "isLatest_of node c100 None"
    by code_simp+
  have K: "''dep'' = ''dep'' \<or> ''dep'' = ''dev''" by simp
  note t = unparseable_range_skipped[OF node_parses_supported node_escape_inj h(1,2,3,4) K h(5,6)]
  from t have t1: "snd (store node reliable empty_state c100) = Done None"
    and t2: "map_of (db (fst (store node reliable empty_state c100))) (pkg_key node c100)
               = Some (Manifest c100)"
    and t3: "map_of (db (fst (store node reliable empty_state c100)))
               (latest_version_key node (name c100)) = Some (Version (version c100))"
    and t4: "map_of (db (fst (store node reliable empty_state c100))) (index_key node ''dep'' ''d'' c100)
               = map_of (db empty_state) (index_key node ''dep'' ''d'' c100)"
    and t5: "map_of (db (fst (store node reliable empty_state c100)))
               (index_latest_key node ''dep'' ''d'' (name c100))
               = map_of (db empty_state) (index_latest_key node ''dep'' ''d'' (name c100))"
    using b(4) by simp_all
  from t b(1,2) have "\<exists>enc. encode_sets (lexi_pack node)
        (range_set \<lparr>range_set = [[cmpr Le (sv 1 2 3)]], range_str = ''<=1.2.3''\<rparr>) = Inr enc \<and>
      map_of (db (fst (store node reliable empty_state c100))) (index_key node ''dep'' ''b'' c100)
        = Some (Sets enc)"
    by blast
  with b(3) have t6: "map_of (db (fst (store node reliable empty_state c100)))
      (index_key node ''dep'' ''b'' c100) = Some (Sets [([], [''f0!ff0!fff0''])])"
    by simp
  from h b(1) t1 t2 t3 t4 t5 t6 node_parses_supported node_escape_inj show ?thesis by simp
qed

subsection \<open>Values stay in their key families\<close>

lemma fits_pointer: "prefix ''!latest-version!'' k \<Longrightarrow> fits_family k v \<Longrightarrow> \<exists>s. v = Version s"
  by (cases v) (auto simp: fits_family_def prefix_def)

lemma fits_manifest:
  "prefix ''!pkg!'' k \<or> prefix ''!pkg-latest!'' k \<Longrightarrow> fits_family k v \<Longrightarrow> \<exists>m. v = Manifest m"
  by (cases v) (auto simp: fits_family_def prefix_def)

lemma fits_sets: "prefix ''!index!'' k \<Longrightarrow> fits_family k v \<Longrightarrow> \<exists>s. v = Sets s"
  by (cases v) (auto simp: fits_family_def prefix_def)

lemma fits_latest: "prefix ''!index-latest!'' k \<Longrightarrow> fits_family k v \<Longrightarrow> \<exists>s e. v = Latest s e"
  by (cases v) (auto simp: fits_family_def prefix_def)

lemma fold_well_typed:
  "\<forall>x\<in>set batch. (case x of Put k v \<Rightarrow> fits_family k v) \<Longrightarrow> well_typed kv \<Longrightarrow>
   well_typed (fold apply_op batch kv)"
proof (induction batch arbitrary: kv)
  case Nil
  then show ?case by simp
next
  case (Cons x batch)
  from Cons.prems have "well_typed (apply_op x kv)"
    by (cases x) (auto simp: well_typed_def apply_op_def update_conv')
  with Cons show ?case by simp
qed

lemma index_puts_fit:
  "x \<in> index_puts E pkg isLatest deptype \<Longrightarrow> (case x of Put k v \<Rightarrow> fits_family k v)"
  using index_puts_origin[of x E pkg isLatest deptype]
  by (auto simp: fits_family_def index_key_def index_latest_key_def)

lemma store_well_typed:
  assumes "well_typed (db st)"
  shows "well_typed (db (fst (store E i st pkg)))"
proof (rule store_cases[of E i st pkg])
  fix err assume "store E i st pkg = (st, Done (Some err))"
  with assms show ?thesis by simp
next
  fix e assume "store E i st pkg = (st, Thrown e)"
  with assms show ?thesis by simp
next
  fix latest deps devs
  let ?B = "deps @ devs @ [Put (''!pkg!'' @ escape E (name pkg) @ ''@'' @ version pkg) (Manifest pkg)]
                    @ (if isLatest_of E pkg latest
                       then [Put (''!pkg-latest!'' @ escape E (name pkg)) (Manifest pkg),
                             Put (''!latest-version!'' @ escape E (name pkg)) (Version (version pkg))]
                       else [])"
  assume d: "batchDependencies E pkg (dependencies pkg) ''dep'' (isLatest_of E pkg latest) = Inr deps"
    and v: "batchDependencies E pkg (devDependencies pkg) ''dev'' (isLatest_of E pkg latest) = Inr devs"
    and s: "store E i st pkg =
         (\<lparr>db = fst (db_batch i (db st)
                  (deps @ devs @ [Put (''!pkg!'' @ escape E (name pkg) @ ''@'' @ version pkg) (Manifest pkg)]
                    @ (if isLatest_of E pkg latest
                       then [Put (''!pkg-latest!'' @ escape E (name pkg)) (Manifest pkg),
                             Put (''!latest-version!'' @ escape E (name pkg)) (Version (version pkg))]
                       else []))),
            lru = (if isLatest_of E pkg latest then (lru st)(name pkg \<mapsto> version pkg) else lru st)\<rparr>,
          Done (snd (db_batch i (db st)
                  (deps @ devs @ [Put (''!pkg!'' @ escape E (name pkg) @ ''@'' @ version pkg) (Manifest pkg)]
                    @ (if isLatest_of E pkg latest
                       then [Put (''!pkg-latest!'' @ escape E (name pkg)) (Manifest pkg),
                             Put (''!latest-version!'' @ escape E (name pkg)) (Version (version pkg))]
                       else [])))))"
  have "\<forall>x\<in>set ?B. (case x of Put k v \<Rightarrow> fits_family k v)"
    using index_puts_fit[of _ E pkg "isLatest_of E pkg latest"]
    unfolding set_append batchDependencies_dep[OF d] batchDependencies_dev[OF v]
    by (auto simp: fits_family_def)
  from fold_well_typed[OF this assms] assms s show ?thesis
    by (simp add: db_batch_def)
qed

lemma query_well_typed:
  assumes "well_typed (db st)"
  shows "well_typed (db (fst (query E i st nm rangeString opt)))"
  unfolding well_typed_def
proof (intro allI impI)
  fix k v assume a: "map_of (db (fst (query E i st nm rangeString opt))) k = Some v"
  have "map_of (db (fst (query E i st nm rangeString opt))) k = map_of (db st) k"
    using query_frame[of E i st nm rangeString opt k] a by (cases "map_of (db st) k") auto
  with a assms show "fits_family k v" by (simp add: well_typed_def)
qed

lemma step_well_typed: "well_typed (db st) \<Longrightarrow> well_typed (db (step E st ev))"
  by (cases ev) (simp_all add: step_def store_well_typed query_well_typed)

lemma run_well_typed: "well_typed (db st) \<Longrightarrow> well_typed (db (run E st evs))"
  by (induction evs arbitrary: st) (simp_all add: step_well_typed)

lemma empty_well_typed: "well_typed (db empty_state)"
  by (simp add: well_typed_def empty_state_def)

lemma db_get_not_Corrupt: "db_get i kv k \<noteq> Inl Corrupt"
  by (simp add: db_get_def split: option.splits)

lemma db_get_fits: "well_typed kv \<Longrightarrow> db_get i kv k = Inr v \<Longrightarrow> fits_family k v"
  by (auto simp: well_typed_def dest: db_get_Some)

lemma getLatestVersion_not_Corrupt:
  assumes "well_typed (db st)"
  shows "getLatestVersion E i st nm \<noteq> Inl Corrupt"
proof (cases "db_get i (db st) (''!latest-version!'' @ escape E nm)")
  case (Inl err)
  with db_get_not_Corrupt[of i "db st" "''!latest-version!'' @ escape E nm"] show ?thesis
    by (cases err) (simp_all add: getLatestVersion_def Let_def)
next
  case (Inr v)
  from fits_pointer[OF _ db_get_fits[OF assms Inr]] obtain s where "v = Version s" by auto
  with Inr show ?thesis by (simp add: getLatestVersion_def Let_def)
qed

lemma store_not_Corrupt:
  assumes "well_typed (db st)"
  shows "snd (store E i st pkg) \<noteq> Done (Some Corrupt)"
proof (cases "getLatestVersion E i st (name pkg)")
  case (Inl err)
  with getLatestVersion_not_Corrupt[OF assms, of E i "name pkg"] show ?thesis
    by (auto simp: store_def)
next
  case (Inr latest)
  then show ?thesis
    by (simp add: store_def Let_def db_batch_def split: sum.splits)
qed

lemma createReadStream_records:
  "d \<in> set (createReadStream kv gt lt limit) \<Longrightarrow> map_of kv (fst d) = Some (snd d)"
proof -
  assume d: "d \<in> set (createReadStream kv gt lt limit)"
  let ?keys = "sort (remdups (filter (\<lambda>k. gt < k \<and> k < lt) (map fst kv)))"
  let ?records = "List.map_filter (\<lambda>k. map_option (Pair k) (map_of kv k)) ?keys"
  have "set (createReadStream kv gt lt limit) \<subseteq> set ?records"
    unfolding createReadStream_def Let_def
    by (auto split: option.splits dest: in_set_takeD)
  with d have "d \<in> set ?records" by blast
  then show ?thesis
    by (auto simp: map_filter_def)
qed

lemma passes_not_Corrupt:
  assumes "fits_family k v" "prefix (keyprefix_of opt) k"
  shows "passes opt wildcard bounds v \<noteq> Inl Corrupt"
proof (cases "opt_all opt")
  case True
  with assms(2) have "prefix ''!index!'' k" by (auto simp: keyprefix_of_def prefix_def)
  from fits_sets[OF this assms(1)] True show ?thesis
    by (auto simp: passes_def sets_of_def)
next
  case False
  with assms(2) have "prefix ''!index-latest!'' k" by (auto simp: keyprefix_of_def prefix_def)
  from fits_latest[OF this assms(1)] False show ?thesis
    by (auto simp: passes_def sets_of_def)
qed

lemma cleanup_not_Corrupt:
  assumes "well_typed kv"
  shows "snd (cleanup i kv key dependent pkg) \<noteq> Some Corrupt"
proof (cases "db_get i kv (''!latest-version!'' @ dependent)")
  case (Inl err)
  with db_get_not_Corrupt[of i kv "''!latest-version!'' @ dependent"] show ?thesis
    by (simp add: cleanup_def)
next
  case (Inr v)
  from fits_pointer[OF _ db_get_fits[OF assms Inr]] obtain s where "v = Version s" by auto
  with Inr show ?thesis by (simp add: cleanup_def db_del_def)
qed

lemma filter_record_not_Corrupt:
  assumes wt: "well_typed kv" and fit: "fits_family (fst data) (snd data)"
    and pre: "prefix (keyprefix_of opt) (fst data)"
  shows "snd (filter_record E i opt nm wildcard bounds kv data) \<noteq> Fail Corrupt"
proof (cases "passes opt wildcard bounds (snd data)")
  case (Inl err)
  with passes_not_Corrupt[OF fit pre, of wildcard bounds] show ?thesis
    by (auto simp: filter_record_def)
next
  case (Inr b)
  let ?key = "(if opt_all opt then ''!pkg!'' else ''!pkg-latest!'') @ dependent_of (fst data)"
  show ?thesis
  proof (cases b)
    case False
    with Inr show ?thesis by (simp add: filter_record_def)
  next
    case True
    show ?thesis
    proof (cases "db_get i kv ?key")
      case (Inl err)
      with db_get_not_Corrupt[of i kv ?key] Inr True show ?thesis
        by (simp add: filter_record_def Let_def)
    next
      case r: (Inr v)
      have "prefix ''!pkg!'' ?key \<or> prefix ''!pkg-latest!'' ?key" by simp
      from fits_manifest[OF this db_get_fits[OF wt r]] obtain m where "v = Manifest m" by auto
      with r Inr True cleanup_not_Corrupt[OF wt, of i "fst data" "dependent_of (fst data)" m]
      show ?thesis
        by (auto simp: filter_record_def Let_def split: prod.splits option.splits)
    qed
  qed
qed

lemma filter_record_well_typed:
  assumes "well_typed kv"
  shows "well_typed (fst (filter_record E i opt nm wildcard bounds kv data))"
  unfolding well_typed_def
proof (intro allI impI)
  fix k v assume a: "map_of (fst (filter_record E i opt nm wildcard bounds kv data)) k = Some v"
  obtain kv' em where f: "filter_record E i opt nm wildcard bounds kv data = (kv', em)"
    by (cases "filter_record E i opt nm wildcard bounds kv data")
  from filter_record_frame[OF f] a f have "map_of kv k = Some v"
    by (cases "k = fst data") auto
  with assms show "fits_family k v" by (simp add: well_typed_def)
qed

lemma pump_not_Corrupt:
  "well_typed kv \<Longrightarrow>
   \<forall>d\<in>set records. fits_family (fst d) (snd d) \<and> prefix (keyprefix_of opt) (fst d) \<Longrightarrow>
   failure (snd (pump E i opt nm wildcard bounds kv records)) \<noteq> Some Corrupt"
proof (induction records arbitrary: kv)
  case Nil
  then show ?case by simp
next
  case (Cons data rest)
  obtain kv1 em where f: "filter_record E i opt nm wildcard bounds kv data = (kv1, em)"
    by (cases "filter_record E i opt nm wildcard bounds kv data")
  from filter_record_well_typed[OF Cons.prems(1), of E i opt nm wildcard bounds data] f
  have wt1: "well_typed kv1" by simp
  from Cons.prems(2) have rest: "\<forall>d\<in>set rest. fits_family (fst d) (snd d) \<and> prefix (keyprefix_of opt) (fst d)"
    and "fits_family (fst data) (snd data)" "prefix (keyprefix_of opt) (fst data)"
    by simp_all
  from filter_record_not_Corrupt[OF Cons.prems(1) this(2,3), of E i nm wildcard bounds] f
  have "em \<noteq> Fail Corrupt" by simp
  with f Cons.IH[OF wt1 rest] show ?case
    by (cases em) (auto split: prod.splits)
qed

text \<open>
  In every store reached from the empty one, values sit under keys of their family, and
  neither operation reports \<open>Corrupt\<close>.
\<close>

lemma never_Corrupt:
  assumes "well_typed (db st)"
  shows "snd (store E i (run E st evs) pkg) \<noteq> Done (Some Corrupt)"
    and "snd (query E i (run E st evs) nm rangeString opt) = Done c \<Longrightarrow> failure c \<noteq> Some Corrupt"
proof -
  note wt = run_well_typed[OF assms, of E evs]
  show "snd (store E i (run E st evs) pkg) \<noteq> Done (Some Corrupt)"
    by (rule store_not_Corrupt[OF wt])
  assume q: "snd (query E i (run E st evs) nm rangeString opt) = Done c"
  show "failure c \<noteq> Some Corrupt"
  proof (rule query_cases[of E i "run E st evs" nm rangeString opt])
    fix e assume "query E i (run E st evs) nm rangeString opt = (run E st evs, Thrown e)"
    with q show ?thesis by simp
  next
    fix w b kv' c'
    let ?p = "keyprefix_of opt @ escape E nm @ ''!''"
    let ?records = "createReadStream (db (run E st evs))
            (keyprefix_of opt @ escape E nm @ ''!'' @ (case opt_gt opt of None \<Rightarrow> [] | Some g \<Rightarrow> g))
            (keyprefix_of opt @ escape E nm @ ''!'' @ xff) (opt_limit opt)"
    assume p: "pump E i opt (escape E nm) w b (db (run E st evs)) ?records = (kv', c')"
      and r: "query E i (run E st evs) nm rangeString opt = ((run E st evs)\<lparr>db := kv'\<rparr>, Done c')"
    have "\<forall>d\<in>set ?records. fits_family (fst d) (snd d) \<and> prefix (keyprefix_of opt) (fst d)"
    proof
      fix d assume d: "d \<in> set ?records"
      from createReadStream_records[OF d] wt have "fits_family (fst d) (snd d)"
        by (simp add: well_typed_def)
      moreover from createReadStream_keys[OF d]
      have "?p @ (case opt_gt opt of None \<Rightarrow> [] | Some g \<Rightarrow> g) < fst d" "fst d < ?p @ xff"
        by simp_all
      then have "prefix ?p (fst d)" by (rule between_prefix)
      then have "prefix (keyprefix_of opt) (fst d)" by (auto simp: prefix_def)
      ultimately show "fits_family (fst d) (snd d) \<and> prefix (keyprefix_of opt) (fst d)" ..
    qed
    from pump_not_Corrupt[OF wt this, of E i "escape E nm" w b] p q r show ?thesis by simp
  qed
qed

subsection \<open>The scenarios of the specification, run on the model\<close>

text \<open>
  S1: after \<open>a@1.0.0\<close> with \<^verbatim>\<open>b: ^1.2.0\<close>, the query \<^verbatim>\<open>("b", "1.5.0")\<close> returns the manifest.
\<close>

lemma scenario_S1:
  "snd (query node reliable (run node empty_state [Store reliable a100]) ''b'' ''1.5.0'' latest_only)
     = Done \<lparr>emitted = [a100], failure = None\<rparr>"
  by code_simp

text \<open>
  S2 and S3: after \<open>a@2.0.0\<close> without dependencies, the latest query returns nothing and
  deletes \<^verbatim>\<open>!index-latest!dep!b!a\<close>; the query with \<^verbatim>\<open>all\<close> still returns \<open>a@1.0.0\<close>.
\<close>

lemma scenario_S2:
  "snd (query node reliable after_drop ''b'' ''1.5.0'' latest_only)
     = Done \<lparr>emitted = [], failure = None\<rparr> \<and>
   map_of (db after_drop) ''!index-latest!dep!b!a'' \<noteq> None \<and>
   map_of (db (fst (query node reliable after_drop ''b'' ''1.5.0'' latest_only)))
     ''!index-latest!dep!b!a'' = None"
  by code_simp

lemma scenario_S3:
  "snd (query node reliable (fst (query node reliable after_drop ''b'' ''1.5.0'' latest_only))
          ''b'' ''1.5.0'' all_versions)
     = Done \<lparr>emitted = [a100], failure = None\<rparr>"
  by code_simp

text \<open>S4: \<^verbatim>\<open>y: ~2.3.0\<close> does not match the query \<^verbatim>\<open>2.4.0\<close> and matches \<^verbatim>\<open>2.3.5\<close>.\<close>

lemma scenario_S4:
  "snd (query node reliable (run node empty_state [Store reliable x100]) ''y'' ''2.4.0'' latest_only)
     = Done \<lparr>emitted = [], failure = None\<rparr> \<and>
   snd (query node reliable (run node empty_state [Store reliable x100]) ''y'' ''2.3.5'' latest_only)
     = Done \<lparr>emitted = [x100], failure = None\<rparr>"
  by code_simp

text \<open>
  S6: a manifest with the range \<^verbatim>\<open>not-a-range\<close> is stored, and no index entry exists under
  that dependency.
\<close>

lemma scenario_S6:
  "map_of (db (run node empty_state [Store reliable c100])) ''!pkg!c@1.0.0'' = Some (Manifest c100) \<and>
   createReadStream (db (run node empty_state [Store reliable c100]))
     ''!index!dep!d!'' (''!index!dep!d!'' @ xff) None = [] \<and>
   createReadStream (db (run node empty_state [Store reliable c100]))
     ''!index-latest!dep!d!'' (''!index-latest!dep!d!'' @ xff) None = []"
  by code_simp

end
